theory Spec2Isabelle
  imports Main
begin

section \<open>Python strings\<close>

text \<open>
  The scripts work on the text of one \<^verbatim>\<open>.aidata\<close> file. A Python \<^verbatim>\<open>str\<close> is modelled as
  a \<^typ>\<open>string\<close>; documents are taken to be ASCII text, so one character is one code
  point and one byte of the UTF-8 encoding that is hashed.
\<close>

abbreviation NL :: char where
  "NL \<equiv> CHR 0x0A"

text \<open>\<^verbatim>\<open>s.startswith(p)\<close>\<close>

fun startswith :: "string \<Rightarrow> string \<Rightarrow> bool" where
  "startswith s [] = True"
| "startswith [] (p # ps) = False"
| "startswith (c # cs) (p # ps) = (c = p \<and> startswith cs ps)"

text \<open>\<^verbatim>\<open>sub in s\<close>\<close>

fun occurs_in :: "string \<Rightarrow> string \<Rightarrow> bool" where
  "occurs_in sub [] = (sub = [])"
| "occurs_in sub (c # cs) = (startswith (c # cs) sub \<or> occurs_in sub cs)"

text \<open>\<^verbatim>\<open>s.split('\n')\<close>: never the empty list, \<^verbatim>\<open>''.split('\n') == ['']\<close>.\<close>

fun split_nl :: "string \<Rightarrow> string list" where
  "split_nl [] = [[]]"
| "split_nl (c # cs) =
     (if c = NL then [] # split_nl cs
      else (case split_nl cs of [] \<Rightarrow> [[c]] | l # ls \<Rightarrow> (c # l) # ls))"

text \<open>\<^verbatim>\<open>sep.join(xs)\<close>\<close>

fun join :: "string \<Rightarrow> string list \<Rightarrow> string" where
  "join sep [] = []"
| "join sep [x] = x"
| "join sep (x # y # ys) = x @ sep @ join sep (y # ys)"

text \<open>
  \<^verbatim>\<open>str.isspace\<close> on ASCII: tab, line feed, vertical tab, form feed, carriage return,
  the four separators 0x1C to 0x1F, and the space.
\<close>

definition isspace :: "char \<Rightarrow> bool" where
  "isspace c = (c \<in> set [CHR 0x09, NL, CHR 0x0B, CHR 0x0C, CHR 0x0D,
                           CHR 0x1C, CHR 0x1D, CHR 0x1E, CHR 0x1F, CHR '' ''])"

definition lstrip :: "string \<Rightarrow> string" where
  "lstrip s = dropWhile isspace s"

definition rstrip :: "string \<Rightarrow> string" where
  "rstrip s = rev (dropWhile isspace (rev s))"

definition strip :: "string \<Rightarrow> string" where
  "strip s = lstrip (rstrip s)"

text \<open>\<^verbatim>\<open>str.lower\<close> on ASCII.\<close>

definition lower_char :: "char \<Rightarrow> char" where
  "lower_char c =
     (if c \<in> set ''ABCDEFGHIJKLMNOPQRSTUVWXYZ'' then char_of (of_char c + (32::nat)) else c)"

definition lower :: "string \<Rightarrow> string" where
  "lower s = map lower_char s"

definition isdigit :: "char \<Rightarrow> bool" where
  "isdigit c = (c \<in> set ''0123456789'')"



text \<open>\<^verbatim>\<open>str(n)\<close> for a natural number, as an f-string renders a count.\<close>

fun str_of_nat :: "nat \<Rightarrow> string" where
  "str_of_nat n =
     (if n < 10 then [char_of (48 + n)]
      else str_of_nat (n div 10) @ [char_of (48 + n mod 10)])"

declare str_of_nat.simps [simp del]

subsection \<open>The regular expressions of the scripts\<close>

text \<open>
  \<^verbatim>\<open>re.search\<close>: the matcher is tried at every position from the left, the end of the
  text included, and the first position where it succeeds gives the match.
\<close>

fun re_search :: "(string \<Rightarrow> 'a option) \<Rightarrow> string \<Rightarrow> 'a option" where
  "re_search m [] = m []"
| "re_search m (c # cs) = (case m (c # cs) of Some r \<Rightarrow> Some r | None \<Rightarrow> re_search m cs)"

text \<open>
  The fixed-width patterns: a literal character or \<^verbatim>\<open>\d\<close>. \<open>match_pat p s\<close> says that
  \<open>p\<close> matches a prefix of \<open>s\<close>.
\<close>

datatype pat = Lit char | Digit

fun match_pat :: "pat list \<Rightarrow> string \<Rightarrow> bool" where
  "match_pat [] s = True"
| "match_pat (p # ps) [] = False"
| "match_pat (Lit c # ps) (x # xs) = (x = c \<and> match_pat ps xs)"
| "match_pat (Digit # ps) (x # xs) = (isdigit x \<and> match_pat ps xs)"

text \<open>\<^verbatim>\<open>\d{4}-\d{2}-\d{2} \d{2}:\d{2}:\d{2}\<close>, 19 characters.\<close>

definition timestamp_pat :: "pat list" where
  "timestamp_pat =
     [Digit, Digit, Digit, Digit, Lit (CHR ''-''), Digit, Digit, Lit (CHR ''-''), Digit, Digit,
      Lit (CHR '' ''), Digit, Digit, Lit (CHR '':''), Digit, Digit, Lit (CHR '':''), Digit, Digit]"

section \<open>The file and the terminal\<close>

text \<open>
  Every command builds an \<^verbatim>\<open>AIDataProcessor\<close>, whose constructor reads the file, and
  runs one method on it. \<open>disk\<close> is what the file holds, \<open>None\<close> when \<^verbatim>\<open>_read_file\<close>
  cannot read it; \<open>writable\<close> says whether \<^verbatim>\<open>_write_file\<close> can open it for writing;
  \<open>platform\<close> decides \<^verbatim>\<open>os.linesep\<close>; \<open>stdin\<close> holds the lines the user will type and
  \<open>prompts\<close> the prompts \<^verbatim>\<open>input\<close> has shown.
\<close>

abbreviation CR :: char where
  "CR \<equiv> CHR 0x0D"

datatype platform = Posix | Windows

definition linesep :: "platform \<Rightarrow> string" where
  "linesep p = (case p of Posix \<Rightarrow> [NL] | Windows \<Rightarrow> [CR, NL])"

record world =
  disk :: "string option"
  writable :: bool
  platform :: platform
  stdin :: "string list"
  prompts :: "string list"

datatype py_error = IndexError | EOFError

text \<open>
  The file is opened in text mode with \<^verbatim>\<open>newline\<close> left at its default. On reading,
  a carriage return followed by a line feed, and a carriage return alone, come out as one
  line feed; on writing, every line feed goes out as \<^verbatim>\<open>os.linesep\<close>.
\<close>

fun universal_newlines :: "string \<Rightarrow> string" where
  "universal_newlines [] = []"
| "universal_newlines [c] = (if c = CR then [NL] else [c])"
| "universal_newlines (c # x # xs) =
     (if c = CR \<and> x = NL then NL # universal_newlines xs
      else if c = CR then NL # universal_newlines (x # xs)
      else c # universal_newlines (x # xs))"

definition native_newlines :: "platform \<Rightarrow> string \<Rightarrow> string" where
  "native_newlines p s = concat (map (\<lambda>c. if c = NL then linesep p else [c]) s)"

definition read_file :: "world \<Rightarrow> string option" where
  "read_file w = map_option universal_newlines (disk w)"

definition write_file :: "world \<Rightarrow> string \<Rightarrow> bool \<times> world" where
  "write_file w content =
     (if writable w then (True, w\<lparr>disk := Some (native_newlines (platform w) content)\<rparr>)
      else (False, w))"

text \<open>\<^verbatim>\<open>if not self.content\<close>: true for \<^verbatim>\<open>None\<close> and for the empty string.\<close>

definition no_content :: "string option \<Rightarrow> bool" where
  "no_content c = (case c of None \<Rightarrow> True | Some s \<Rightarrow> s = [])"

section \<open>\<^verbatim>\<open>validate_syntax\<close>\<close>

definition mandatory_sections :: "string list" where
  "mandatory_sections =
     [''FILE METADATA'', ''DOMAIN CONTEXT'', ''KNOWLEDGE REPRESENTATION'',
      ''VALIDATION FRAMEWORK'', ''APPLICATION CONTEXT'', ''EVOLUTION TRACKING'',
      ''AUTOMATED LEARNINGS'']"






text \<open>
  \<^verbatim>\<open>re.search(r"## FILE METADATA\n([\\s\\S]*?)(?=\\n## |\\Z)", content)\<close>, group 1. In
  the raw string \<^verbatim>\<open>\\\<close> is a literal backslash: the class \<^verbatim>\<open>[\\s\\S]\<close> holds the three
  characters backslash, \<^verbatim>\<open>s\<close> and \<^verbatim>\<open>S\<close>, and the lookahead wants a backslash followed
  by \<^verbatim>\<open>n## \<close> or by \<^verbatim>\<open>Z\<close>. The group is lazy: the shortest run of class characters
  after which the lookahead holds.
\<close>

abbreviation BSL :: char where
  "BSL \<equiv> CHR 0x5C"

definition metadata_class :: "char \<Rightarrow> bool" where
  "metadata_class c = (c \<in> set [BSL, CHR ''s'', CHR ''S''])"

definition metadata_lookahead :: "string \<Rightarrow> bool" where
  "metadata_lookahead s = (startswith s (BSL # ''n## '') \<or> startswith s [BSL, CHR ''Z''])"

fun metadata_lazy :: "string \<Rightarrow> string \<Rightarrow> string option" where
  "metadata_lazy acc [] = (if metadata_lookahead [] then Some (rev acc) else None)"
| "metadata_lazy acc (c # cs) =
     (if metadata_lookahead (c # cs) then Some (rev acc)
      else if metadata_class c then metadata_lazy (c # acc) cs else None)"

definition metadata_at :: "string \<Rightarrow> string option" where
  "metadata_at s =
     (if startswith s ''## FILE METADATA\<newline>'' then metadata_lazy [] (drop 17 s) else None)"




text \<open>
  \<^verbatim>\<open>validate_sections\<close> of the stand-alone validator: the same scan, with the names
  found returned beside the verdict; the lines it prints are the missing names.
\<close>

fun scan_sections :: "string \<Rightarrow> string list \<Rightarrow> string list \<Rightarrow> string list \<Rightarrow> string list \<times> string list" where
  "scan_sections content missing present [] = (missing, present)"
| "scan_sections content missing present (s # ss) =
     (if occurs_in (''## '' @ s) content
      then scan_sections content missing (present @ [s]) ss
      else scan_sections content (missing @ [s]) present ss)"

definition validate_sections :: "string option \<Rightarrow> (bool \<times> string list) \<times> string list" where
  "validate_sections c =
     (case c of
        None \<Rightarrow> ((False, []), [])
      | Some content \<Rightarrow>
          (case scan_sections content [] [] mandatory_sections of
             (missing, present) \<Rightarrow> ((missing = [], present), missing)))"

section \<open>\<^verbatim>\<open>generate_hash\<close>\<close>

text \<open>
  \<^verbatim>\<open>hashlib.sha256(data).hexdigest()\<close>. The digest itself is a parameter of the model, a
  function from the bytes to a number; the rendering as 64 lower-case hexadecimal digits is
  modelled.
\<close>

type_synonym digest = "string \<Rightarrow> nat"

definition hex_char :: "nat \<Rightarrow> char" where
  "hex_char n = ''0123456789abcdef'' ! (n mod 16)"

fun hex_digits :: "nat \<Rightarrow> nat \<Rightarrow> string" where
  "hex_digits 0 n = []"
| "hex_digits (Suc k) n = hex_digits k (n div 16) @ [hex_char n]"

definition hexdigest :: "digest \<Rightarrow> string \<Rightarrow> string" where
  "hexdigest d s = hex_digits 64 (d s)"

definition hash_prefix :: string where
  "hash_prefix = ''- **Integrity Hash**: SHA256-''"

definition is_hash_line :: "string \<Rightarrow> bool" where
  "is_hash_line l = startswith l hash_prefix"

text \<open>
  The first loop over \<^verbatim>\<open>enumerate(lines)\<close>: \<open>i\<close> is the index of the line at the head,
  \<open>idx\<close> is \<^verbatim>\<open>hash_line_index\<close> (\<open>-1\<close> until a hash line is met) and \<open>filtered\<close> is
  \<^verbatim>\<open>filtered_lines\<close>.
\<close>

fun hash_scan :: "string list \<Rightarrow> int \<Rightarrow> int \<Rightarrow> string list \<Rightarrow> int \<times> string list" where
  "hash_scan [] i idx filtered = (idx, filtered)"
| "hash_scan (l # ls) i idx filtered =
     (if is_hash_line l then hash_scan ls (i + 1) i filtered
      else hash_scan ls (i + 1) idx (filtered @ [l]))"

text \<open>\<^verbatim>\<open>xs.insert(j, x)\<close> for \<open>j \<ge> 0\<close>; beyond the end it appends.\<close>

definition list_insert :: "nat \<Rightarrow> 'a \<Rightarrow> 'a list \<Rightarrow> 'a list" where
  "list_insert j x xs = take j xs @ x # drop j xs"

text \<open>The index of the first line that satisfies \<open>P\<close>, counted from \<open>i\<close>.\<close>

fun find_line :: "(string \<Rightarrow> bool) \<Rightarrow> string list \<Rightarrow> nat \<Rightarrow> nat option" where
  "find_line P [] i = None"
| "find_line P (l # ls) i = (if P l then Some i else find_line P ls (Suc i))"

text \<open>\<^verbatim>\<open>while j < len(lines) and not lines[j].startswith("## "): j += 1\<close>\<close>

function metadata_end :: "string list \<Rightarrow> nat \<Rightarrow> nat" where
  "metadata_end lines j =
     (if j < length lines \<and> \<not> startswith (lines ! j) ''## '' then metadata_end lines (Suc j)
      else j)"
  by pat_completeness auto
termination
  by (relation "measure (\<lambda>(lines, j). length lines - j)") auto

declare metadata_end.simps [simp del]

text \<open>
  The body of \<^verbatim>\<open>generate_hash\<close> between the guard and the write: the digest that is
  reported and the text that is handed to \<^verbatim>\<open>_write_file\<close>.
\<close>

definition hash_update :: "digest \<Rightarrow> string \<Rightarrow> string \<times> string" where
  "hash_update d content =
     (let lines = split_nl content;
          (hash_line_index, filtered_lines) = hash_scan lines 0 (- 1) [];
          content_without_hash = join [NL] filtered_lines;
          sha256_hash = hexdigest d content_without_hash;
          hash_line = ''- **Integrity Hash**: SHA256-'' @ sha256_hash;
          lines' =
            (if hash_line_index \<noteq> - 1 then lines[nat hash_line_index := hash_line]
             else (case find_line (\<lambda>l. l = ''## FILE METADATA'') lines 0 of
                     None \<Rightarrow> lines
                   | Some i \<Rightarrow> list_insert (metadata_end lines (i + 1)) hash_line lines))
      in (sha256_hash, join [NL] lines'))"

definition generate_hash :: "digest \<Rightarrow> world \<Rightarrow> (bool \<times> string) \<times> world" where
  "generate_hash d w =
     (let c = read_file w in
      if no_content c then ((False, ''Could not read file content.''), w)
      else
        (case hash_update d (the c) of
           (sha256_hash, updated_content) \<Rightarrow>
             (case write_file w updated_content of
                (True, w') \<Rightarrow> ((True, ''Integrity hash updated: SHA256-'' @ sha256_hash), w')
              | (False, w') \<Rightarrow> ((False, ''Failed to write updated content to file.''), w'))))"

section \<open>\<^verbatim>\<open>deduplicate_learnings\<close>\<close>

text \<open>
  \<^verbatim>\<open>re.split\<close> with a pattern in one capturing group: the text is cut at the matches, found
  from the left and not overlapping, and the list alternates text and matched separator,
  \<open>[t\<^sub>0, s\<^sub>1, t\<^sub>1, \<dots>, s\<^sub>n, t\<^sub>n]\<close>. The matcher gives the length of the match at the head
  of the text; the patterns of the scripts match at least one character. \<open>acc\<close> is the
  text passed since the last match, reversed.
\<close>

function re_split :: "(string \<Rightarrow> nat option) \<Rightarrow> string \<Rightarrow> string \<Rightarrow> string list" where
  "re_split m acc [] = [rev acc]"
| "re_split m acc (c # cs) =
     (case m (c # cs) of
        None \<Rightarrow> re_split m (c # acc) cs
      | Some n \<Rightarrow> rev acc # take n (c # cs) # re_split m [] (drop (n - 1) cs))"
  by pat_completeness auto
termination
  by (relation "measure (\<lambda>(m, acc, s). length s)") auto

declare re_split.simps [simp del]

text \<open>
  \<^verbatim>\<open>re.search(r'(## AUTOMATED LEARNINGS\n)(.*)', content, re.DOTALL)\<close>, group 2: the text
  after the first occurrence of the marker line, to the end of the file.
\<close>

definition learnings_header :: string where
  "learnings_header = ''## AUTOMATED LEARNINGS\<newline>''"

definition learnings_at :: "string \<Rightarrow> string option" where
  "learnings_at s =
     (if startswith s learnings_header then Some (drop (length learnings_header) s) else None)"

text \<open>
  \<^verbatim>\<open>\n### Learning Entry - \d{4}-\d{2}-\d{2} \d{2}:\d{2}:\d{2}\n\<close>, 42 characters, the line
  feed before the header line and the one after it included.
\<close>

definition entry_header_pat :: "pat list" where
  "entry_header_pat = Lit NL # map Lit ''### Learning Entry - '' @ timestamp_pat @ [Lit NL]"

definition entry_header_at :: "string \<Rightarrow> nat option" where
  "entry_header_at s = (if match_pat entry_header_pat s then Some (length entry_header_pat) else None)"

definition timestamp_at :: "string \<Rightarrow> string option" where
  "timestamp_at s = (if match_pat timestamp_pat s then Some (take 19 s) else None)"

text \<open>
  The identity of an entry: its timestamp, a bar, and the first five lines of the body
  once stripped; what is compared is the SHA-256 of that.
\<close>

definition entry_identifier :: "string \<Rightarrow> string \<Rightarrow> string" where
  "entry_identifier header entry_content =
     (let timestamp = (case re_search timestamp_at header of Some t \<Rightarrow> t | None \<Rightarrow> []);
          content_lines = split_nl (strip entry_content);
          content_summary = join [NL] (take 5 content_lines)
      in timestamp @ ''|'' @ content_summary)"

text \<open>
  The loop \<^verbatim>\<open>for i in range(1, len(entries), 2)\<close> over the list after its first element:
  header and body are taken in pairs, a header without a body is passed over.
  \<open>seen\<close> is \<^verbatim>\<open>seen_hashes\<close>, \<open>recon\<close> is \<^verbatim>\<open>reconstructed_entries\<close> and \<open>dup\<close> is
  \<^verbatim>\<open>duplicate_count\<close>.
\<close>

fun dedup_loop :: "digest \<Rightarrow> string list \<Rightarrow> string set \<Rightarrow> string list \<Rightarrow> nat
    \<Rightarrow> string list \<times> nat" where
  "dedup_loop d (header # entry_content # rest) seen recon dup =
     (let entry_hash = hexdigest d (entry_identifier header entry_content)
      in if entry_hash \<notin> seen
         then dedup_loop d rest (insert entry_hash seen) (recon @ [header, entry_content]) dup
         else dedup_loop d rest seen recon (dup + 1))"
| "dedup_loop d [header] seen recon dup = (recon, dup)"
| "dedup_loop d [] seen recon dup = (recon, dup)"

text \<open>
  The scan of the section body: the split, the part before the first entry (kept unless it
  is blank) and the loop. It gives \<^verbatim>\<open>reconstructed_entries\<close> and
  \<^verbatim>\<open>duplicate_count\<close>.
\<close>

definition dedup_scan :: "digest \<Rightarrow> string \<Rightarrow> string list \<times> nat" where
  "dedup_scan d section_content =
     (let entries = re_split entry_header_at [] section_content;
          first = (if entries \<noteq> [] \<and> strip (hd entries) \<noteq> [] then [hd entries] else [])
      in dedup_loop d (tl entries) {} first 0)"

text \<open>
  \<^verbatim>\<open>s.replace(old, new)\<close>: every occurrence of \<open>old\<close>, from the left and not overlapping;
  an empty \<open>old\<close> matches before every character and at the end.
\<close>

function replace_from :: "string \<Rightarrow> string \<Rightarrow> string \<Rightarrow> string" where
  "replace_from old new [] = []"
| "replace_from old new (c # cs) =
     (if startswith (c # cs) old then new @ replace_from old new (drop (length old - 1) cs)
      else c # replace_from old new cs)"
  by pat_completeness auto
termination
  by (relation "measure (\<lambda>(old, new, s). length s)") auto

declare replace_from.simps [simp del]

definition py_replace :: "string \<Rightarrow> string \<Rightarrow> string \<Rightarrow> string" where
  "py_replace s old new =
     (if old = [] then new @ concat (map (\<lambda>c. c # new) s)
      else replace_from old new s)"

text \<open>
  \<^verbatim>\<open>input(prompt)\<close>: the prompt is shown and one line is read; at the end of the input it
  raises \<^verbatim>\<open>EOFError\<close>.
\<close>

definition py_input :: "string \<Rightarrow> world \<Rightarrow> py_error + (string \<times> world)" where
  "py_input prompt w =
     (case stdin w of
        [] \<Rightarrow> Inl EOFError
      | r # rest \<Rightarrow> Inr (r, w\<lparr>stdin := rest, prompts := prompts w @ [prompt]\<rparr>))"

definition confirm_prompt :: "nat \<Rightarrow> string" where
  "confirm_prompt n = ''Found '' @ str_of_nat n @ '' duplicate entries. Remove them? (y/N): ''"

text \<open>What \<^verbatim>\<open>deduplicate_learnings\<close> does once the user has agreed or was not asked.\<close>

definition dedup_write :: "string \<Rightarrow> string \<Rightarrow> string list \<Rightarrow> nat \<Rightarrow> world
    \<Rightarrow> (bool \<times> string) \<times> world" where
  "dedup_write content section_content reconstructed_entries duplicate_count w =
     (let new_section_content = strip (concat reconstructed_entries);
          new_content = py_replace content (learnings_header @ section_content)
                          (learnings_header @ new_section_content)
      in (case write_file w new_content of
            (True, w') \<Rightarrow>
              ((True, ''Successfully deduplicated. Removed '' @ str_of_nat duplicate_count @
                      '' duplicate entries.''), w')
          | (False, w') \<Rightarrow> ((False, ''Failed to write updated content to file.''), w')))"

definition deduplicate_learnings :: "digest \<Rightarrow> bool \<Rightarrow> world
    \<Rightarrow> py_error + ((bool \<times> string) \<times> world)" where
  "deduplicate_learnings d auto_confirm w =
     (let c = read_file w in
      if no_content c then Inr ((False, ''Could not read file content.''), w)
      else
        (case re_search learnings_at (the c) of
           None \<Rightarrow> Inr ((False, ''No AUTOMATED LEARNINGS section found.''), w)
         | Some section_content \<Rightarrow>
             (case dedup_scan d section_content of
                (reconstructed_entries, duplicate_count) \<Rightarrow>
                  if duplicate_count > 0 \<and> \<not> auto_confirm
                  then
                    (case py_input (confirm_prompt duplicate_count) w of
                       Inl e \<Rightarrow> Inl e
                     | Inr (response, w') \<Rightarrow>
                         if lower response \<noteq> ''y''
                         then Inr ((False, ''Operation cancelled by user.''), w')
                         else Inr (dedup_write (the c) section_content reconstructed_entries
                                     duplicate_count w'))
                  else Inr (dedup_write (the c) section_content reconstructed_entries
                              duplicate_count w))))"

section \<open>\<^verbatim>\<open>add_checkpoint\<close>\<close>

definition evolution_marker :: string where
  "evolution_marker = ''## EVOLUTION TRACKING''"

definition history_marker :: string where
  "history_marker = ''### Checkpoint History''"

text \<open>
  The first loop over \<^verbatim>\<open>enumerate(lines)\<close>, from the line at the head on. \<open>evo\<close>, \<open>cp\<close>
  and \<open>found\<close> are \<^verbatim>\<open>in_evolution_tracking\<close>, \<^verbatim>\<open>in_checkpoint_section\<close> and
  \<^verbatim>\<open>checkpoint_section_found\<close>. The result is the lines from the head on, after the
  \<^verbatim>\<open>insert\<close> if one was made (the loop then stops), and the last flag.
\<close>

fun checkpoint_loop :: "string \<Rightarrow> bool \<Rightarrow> bool \<Rightarrow> bool \<Rightarrow> string list
    \<Rightarrow> string list \<times> bool" where
  "checkpoint_loop entry evo cp found [] = ([], found)"
| "checkpoint_loop entry evo cp found (l # ls) =
     (if occurs_in evolution_marker l
      then (case checkpoint_loop entry True cp found ls of (r, f) \<Rightarrow> (l # r, f))
      else if evo \<and> occurs_in history_marker l
      then (case checkpoint_loop entry evo True True ls of (r, f) \<Rightarrow> (l # r, f))
      else if evo \<and> cp \<and> startswith l ''## '' \<and> \<not> occurs_in history_marker l
      then (entry # l # ls, found)
      else if evo \<and> cp \<and> occurs_in ''- ****:'' l
      then (l # entry # ls, found)
      else (case checkpoint_loop entry evo cp found ls of (r, f) \<Rightarrow> (l # r, f)))"

text \<open>
  \<^verbatim>\<open>while j < len(lines) and not lines[j].startswith("## ") or "## EVOLUTION TRACKING" in lines[j]: j += 1\<close>.
  Python reads the condition as \<^verbatim>\<open>(A and B) or C\<close>: when \<open>j\<close> has reached the length of the
  list, \<^verbatim>\<open>A and B\<close> is false and \<^verbatim>\<open>C\<close> is evaluated, which indexes the list out of range.
\<close>

function evolution_end :: "string list \<Rightarrow> nat \<Rightarrow> py_error + nat" where
  "evolution_end lines j =
     (if j < length lines
      then (if \<not> startswith (lines ! j) ''## '' then evolution_end lines (Suc j)
            else if occurs_in evolution_marker (lines ! j) then evolution_end lines (Suc j)
            else Inr j)
      else Inl IndexError)"
  by pat_completeness auto
termination
  by (relation "measure (\<lambda>(lines, j). length lines - j)") auto

declare evolution_end.simps [simp del]

text \<open>
  The second loop, run when no Checkpoint History line was found: at the first line with
  the marker the end of the section is looked for and the two new lines are inserted there.
\<close>

definition create_history :: "string \<Rightarrow> string list \<Rightarrow> py_error + string list" where
  "create_history entry lines =
     (case find_line (occurs_in evolution_marker) lines 0 of
        None \<Rightarrow> Inr lines
      | Some i \<Rightarrow>
          (case evolution_end lines (i + 1) of
             Inl e \<Rightarrow> Inl e
           | Inr j \<Rightarrow>
               Inr (list_insert (j + 1) (rstrip entry)
                      (list_insert j (NL # history_marker) lines))))"

text \<open>
  \<open>now\<close> is \<^verbatim>\<open>datetime.now().strftime("%Y-%m-%dT%H:%M:%SZ")\<close>, the clock being outside the
  model.
\<close>

definition add_checkpoint :: "string \<Rightarrow> string \<Rightarrow> world \<Rightarrow> py_error + ((bool \<times> string) \<times> world)" where
  "add_checkpoint now description w =
     (let c = read_file w in
      if no_content c then Inr ((False, ''Could not read file content.''), w)
      else
        let checkpoint_entry = ''- **'' @ now @ ''**: '' @ description @ [NL];
            lines = split_nl (the c)
        in (case checkpoint_loop checkpoint_entry False False False lines of
              (lines', checkpoint_section_found) \<Rightarrow>
                (case (if \<not> checkpoint_section_found then create_history checkpoint_entry lines'
                       else Inr lines') of
                   Inl e \<Rightarrow> Inl e
                 | Inr lines'' \<Rightarrow>
                     (case write_file w (join [NL] lines'') of
                        (True, w') \<Rightarrow> Inr ((True, ''Checkpoint added: '' @ description), w')
                      | (False, w') \<Rightarrow>
                          Inr ((False, ''Failed to write updated content to file.''), w')))))"

section \<open>\<^verbatim>\<open>to_json\<close>\<close>

text \<open>
  The dictionary \<^verbatim>\<open>json_data\<close>; \<^verbatim>\<open>file_title\<close> is a key only when the header matched.
\<close>

record json_data =
  file_name :: string
  file_title :: "string option"
  metadata :: "string \<rightharpoonup> string"
  sections :: "string \<rightharpoonup> string"

text \<open>\<^verbatim>\<open>.\<close> of a regular expression: any character but the line feed.\<close>

definition upto_eol :: "string \<Rightarrow> string" where
  "upto_eol s = takeWhile (\<lambda>c. c \<noteq> NL) s"

text \<open>\<^verbatim>\<open>re.match(r"# AI LEARNING FILE: (.+)", content)\<close>, group 1.\<close>

definition title_match :: "string \<Rightarrow> string option" where
  "title_match s =
     (if startswith s ''# AI LEARNING FILE: '' \<and> upto_eol (drop 20 s) \<noteq> []
      then Some (upto_eol (drop 20 s)) else None)"

text \<open>
  \<^verbatim>\<open>re.match(r'- \*\*([^:]+)\*\*: (.*)', line)\<close>, the two groups. The first group is
  greedy: it starts with all the characters before the first colon and gives them back one
  by one until \<^verbatim>\<open>**: \<close> follows; \<open>k\<close> is its length.
\<close>

fun key_backtrack :: "nat \<Rightarrow> string \<Rightarrow> (string \<times> string) option" where
  "key_backtrack 0 rest = None"
| "key_backtrack (Suc k) rest =
     (if startswith (drop (Suc k) rest) ''**: ''
      then Some (take (Suc k) rest, upto_eol (drop (Suc k + 4) rest))
      else key_backtrack k rest)"

definition key_value_match :: "string \<Rightarrow> (string \<times> string) option" where
  "key_value_match line =
     (if startswith line ''- **''
      then key_backtrack (length (takeWhile (\<lambda>c. c \<noteq> CHR '':'') (drop 4 line))) (drop 4 line)
      else None)"

text \<open>The loop \<^verbatim>\<open>for line in metadata_content.split('\n')\<close>.\<close>

fun metadata_loop :: "string list \<Rightarrow> (string \<rightharpoonup> string) \<Rightarrow> (string \<rightharpoonup> string)" where
  "metadata_loop [] md = md"
| "metadata_loop (line # ls) md =
     (if startswith line ''- **''
      then (case key_value_match line of
              Some (key, value) \<Rightarrow> metadata_loop ls (md(key \<mapsto> value))
            | None \<Rightarrow> metadata_loop ls md)
      else metadata_loop ls md)"

definition parse_metadata :: "string \<Rightarrow> (string \<rightharpoonup> string)" where
  "parse_metadata content =
     (case re_search metadata_at content of
        None \<Rightarrow> Map.empty
      | Some metadata_content \<Rightarrow> metadata_loop (split_nl metadata_content) Map.empty)"

text \<open>\<^verbatim>\<open>## .+\<close>: the three characters and the rest of the line, which is not empty.\<close>

definition section_header_at :: "string \<Rightarrow> nat option" where
  "section_header_at s =
     (if startswith s ''## '' \<and> upto_eol (drop 3 s) \<noteq> []
      then Some (3 + length (upto_eol (drop 3 s))) else None)"

text \<open>The loop \<^verbatim>\<open>for i in range(1, len(sections), 2)\<close> over the list after its first element.\<close>

fun sections_loop :: "string list \<Rightarrow> (string \<rightharpoonup> string) \<Rightarrow> (string \<rightharpoonup> string)" where
  "sections_loop (header # content # rest) sec =
     sections_loop rest (sec(drop 3 (strip header) \<mapsto> strip content))"
| "sections_loop [header] sec = sec"
| "sections_loop [] sec = sec"

definition build_json :: "string \<Rightarrow> string \<Rightarrow> json_data" where
  "build_json name content =
     \<lparr>file_name = name,
      file_title = title_match content,
      metadata = parse_metadata content,
      sections = sections_loop (tl (re_split section_header_at [] content)) Map.empty\<rparr>"

text \<open>
  \<open>name\<close> and \<open>json_path\<close> are \<^verbatim>\<open>file_path.name\<close> and \<^verbatim>\<open>file_path.with_suffix('.json')\<close>;
  \<open>json_failure\<close> is \<open>None\<close> when the sibling file can be written, and the text of the
  exception otherwise. The result holds the mapping that \<^verbatim>\<open>json.dump\<close> serialises.
\<close>

definition to_json :: "string \<Rightarrow> string \<Rightarrow> string option \<Rightarrow> world
    \<Rightarrow> (bool \<times> string) \<times> json_data option" where
  "to_json name json_path json_failure w =
     (let c = read_file w in
      if no_content c then ((False, ''Could not read file content.''), None)
      else
        (case json_failure of
           None \<Rightarrow> ((True, ''Converted to JSON: '' @ json_path), Some (build_json name (the c)))
         | Some e \<Rightarrow> ((False, ''Error writing JSON file: '' @ e), None)))"

section \<open>What the claims speak of\<close>





text \<open>
  C5 and C10 speak of documents by their lines, the lines of the text as it is read: two
  documents that differ only inside lines that carry the hash prefix, and a document that
  has neither a hash line nor a line equal to the metadata marker.
\<close>

definition same_but_hash_lines :: "string \<Rightarrow> string \<Rightarrow> bool" where
  "same_but_hash_lines c1 c2 =
     list_all2 (\<lambda>a b. a = b \<or> (is_hash_line a \<and> is_hash_line b)) (split_nl c1) (split_nl c2)"

definition no_hash_line :: "string \<Rightarrow> bool" where
  "no_hash_line c = list_all (\<lambda>l. \<not> is_hash_line l) (split_nl c)"

definition no_metadata_marker :: "string \<Rightarrow> bool" where
  "no_metadata_marker c = list_all (\<lambda>l. l \<noteq> ''## FILE METADATA'') (split_nl c)"

text \<open>
  The entries of the learnings section as the operation sees them: the headers and bodies
  that the split has cut out, in pairs. In the words of the specification, of the entries
  that share a hash only the first is kept: an entry stays when no entry before it has its
  hash.
\<close>

fun entry_pairs :: "string list \<Rightarrow> (string \<times> string) list" where
  "entry_pairs (header # entry_content # rest) = (header, entry_content) # entry_pairs rest"
| "entry_pairs [header] = []"
| "entry_pairs [] = []"

definition entry_hash :: "digest \<Rightarrow> string \<times> string \<Rightarrow> string" where
  "entry_hash d p = hexdigest d (entry_identifier (fst p) (snd p))"

definition first_of_hash :: "digest \<Rightarrow> string set \<Rightarrow> (string \<times> string) list
    \<Rightarrow> (string \<times> string) list" where
  "first_of_hash d seen ps =
     map snd (filter (\<lambda>(i, p). entry_hash d p \<notin> seen \<union> entry_hash d ` set (take i ps))
                (enumerate 0 ps))"

text \<open>
  C3 speaks of one new line in a list whose lines are otherwise what they were, in their
  order: \<open>ys\<close> is \<open>xs\<close> with \<open>x\<close> put in at some place.
\<close>

definition one_inserted :: "'a \<Rightarrow> 'a list \<Rightarrow> 'a list \<Rightarrow> bool" where
  "one_inserted x xs ys = (\<exists>k. ys = take k xs @ x # drop k xs)"

text \<open>
  SHA-256 is a parameter of every theorem. Where the model is evaluated at a concrete
  document a digest has to be named: the sum of the bytes stands in.
\<close>

definition byte_sum :: digest where
  "byte_sum s = sum_list (map of_char s)"

section \<open>Properties\<close>

subsection \<open>Lines\<close>

lemma split_nl_nonempty [simp]: "split_nl s \<noteq> []"
  by (induction s) (auto split: list.splits)

lemma join_split_nl [simp]: "join [NL] (split_nl s) = s"
proof (induction s)
  case Nil
  then show ?case by simp
next
  case (Cons c cs)
  obtain l ls where sp: "split_nl cs = l # ls"
    by (cases "split_nl cs") auto
  show ?case
    using Cons sp by (cases ls) auto
qed

lemma split_nl_no_newline: "l \<in> set (split_nl s) \<Longrightarrow> NL \<notin> set l"
  by (induction s arbitrary: l) (auto split: if_splits list.splits)

lemma split_nl_append_line:
  "NL \<notin> set x \<Longrightarrow> split_nl (x @ NL # s) = x # split_nl s"
  by (induction x) auto

lemma split_nl_line: "NL \<notin> set x \<Longrightarrow> split_nl x = [x]"
  by (induction x) auto

lemma split_join_nl:
  "ls \<noteq> [] \<Longrightarrow> \<forall>l\<in>set ls. NL \<notin> set l \<Longrightarrow> split_nl (join [NL] ls) = ls"
proof (induction "[NL]" ls rule: join.induct)
  case 1
  then show ?case by simp
next
  case (2 x)
  then show ?case by (simp add: split_nl_line)
next
  case (3 x y ys)
  then show ?case by (simp add: split_nl_append_line)
qed

lemma join_nonempty: "x \<in> set ls \<Longrightarrow> x \<noteq> [] \<Longrightarrow> join sep ls \<noteq> []"
  by (induction sep ls rule: join.induct) auto

lemma join_insert_nonempty: "x \<noteq> [] \<Longrightarrow> join sep (pre @ x # post) \<noteq> []"
  by (rule join_nonempty [of x]) simp_all

lemma startswith_append [simp]: "startswith (p @ x) p"
  by (induction p) auto

text \<open>What is read holds no carriage return, and what is written is read back as it was.\<close>

lemma universal_newlines_no_cr: "CR \<notin> set (universal_newlines s)"
  by (induction s rule: universal_newlines.induct) auto

lemma universal_newlines_id: "CR \<notin> set s \<Longrightarrow> universal_newlines s = s"
  by (induction s rule: universal_newlines.induct) auto

lemma universal_newlines_empty: "(universal_newlines s = []) = (s = [])"
  by (induction s rule: universal_newlines.induct) auto

lemma native_newlines_posix: "native_newlines Posix s = s"
  by (induction s) (simp_all add: native_newlines_def linesep_def)

lemma native_newlines_Cons:
  "native_newlines p (c # s) = (if c = NL then linesep p else [c]) @ native_newlines p s"
  by (simp add: native_newlines_def)

lemma universal_native_newlines:
  "CR \<notin> set s \<Longrightarrow> universal_newlines (native_newlines p s) = s"
proof (induction s)
  case Nil
  then show ?case by (simp add: native_newlines_def)
next
  case (Cons c s)
  then have ih: "universal_newlines (native_newlines p s) = s" and c: "c \<noteq> CR"
    by auto
  show ?case
  proof (cases p)
    case Posix
    with Cons.prems show ?thesis
      by (simp add: native_newlines_posix universal_newlines_id)
  next
    case Windows
    show ?thesis
    proof (cases "c = NL")
      case True
      with ih Windows show ?thesis
        by (simp add: native_newlines_Cons linesep_def)
    next
      case False
      with c ih show ?thesis
        by (cases "native_newlines p s") (simp_all add: native_newlines_Cons)
    qed
  qed
qed



lemma join_holds_element: "l \<in> set ls \<Longrightarrow> \<exists>a b. join sep ls = a @ l @ b"
proof (induction sep ls rule: join.induct)
  case (1 sep)
  then show ?case by simp
next
  case (2 sep x)
  then have "join sep [x] = [] @ l @ []" by simp
  then show ?case by blast
next
  case (3 sep x y ys)
  show ?case
  proof (cases "l = x")
    case True
    then have "join sep (x # y # ys) = [] @ l @ (sep @ join sep (y # ys))" by simp
    then show ?thesis by blast
  next
    case False
    with 3 obtain a b where "join sep (y # ys) = a @ l @ b" by auto
    then have "join sep (x # y # ys) = (x @ sep @ a) @ l @ b" by simp
    then show ?thesis by blast
  qed
qed


subsection \<open>Validation\<close>


lemma scan_sections_filter:
  "scan_sections content ms ps ss =
     (ms @ filter (\<lambda>s. \<not> occurs_in (''## '' @ s) content) ss,
      ps @ filter (\<lambda>s. occurs_in (''## '' @ s) content) ss)"
  by (induction ss arbitrary: ms ps) simp_all

text \<open>
  The stand-alone validator makes the same test on every readable file, the empty one
  included.
\<close>

lemma validate_sections_test:
  "validate_sections (Some content) =
     ((filter (\<lambda>s. \<not> occurs_in (''## '' @ s) content) mandatory_sections = [],
       filter (\<lambda>s. occurs_in (''## '' @ s) content) mandatory_sections),
      filter (\<lambda>s. \<not> occurs_in (''## '' @ s) content) mandatory_sections)"
  by (simp add: validate_sections_def scan_sections_filter)






subsection \<open>The integrity hash\<close>

lemma hex_char_no_newline: "NL \<noteq> hex_char n"
proof -
  have "hex_char n \<in> set ''0123456789abcdef''"
    unfolding hex_char_def by (rule nth_mem) simp
  then show ?thesis by auto
qed

lemma hex_digits_no_newline: "NL \<notin> set (hex_digits k n)"
  by (induction k n rule: hex_digits.induct) (simp_all add: hex_char_no_newline)

lemma hexdigest_no_newline: "NL \<notin> set (hexdigest d s)"
  by (simp add: hexdigest_def hex_digits_no_newline)

lemma hash_scan_snd:
  "snd (hash_scan ls i idx acc) = acc @ filter (\<lambda>l. \<not> is_hash_line l) ls"
  by (induction ls arbitrary: i idx acc) simp_all

lemma hash_scan_fst_none:
  "\<forall>l\<in>set ls. \<not> is_hash_line l \<Longrightarrow> fst (hash_scan ls i idx acc) = idx"
  by (induction ls arbitrary: i idx acc) simp_all

lemma hash_scan_fst_last:
  "is_hash_line h \<Longrightarrow> \<forall>l\<in>set post. \<not> is_hash_line l \<Longrightarrow>
   fst (hash_scan (pre @ h # post) i idx acc) = i + int (length pre)"
proof (induction pre arbitrary: i idx acc)
  case Nil
  then show ?case by (simp add: hash_scan_fst_none)
next
  case (Cons a pre)
  then show ?case by simp
qed

lemma hash_update_replace:
  assumes "split_nl c = pre @ h # post" and "is_hash_line h"
    and "\<forall>l\<in>set post. \<not> is_hash_line l"
  shows "hash_update d c =
     (hexdigest d (join [NL] (filter (\<lambda>l. \<not> is_hash_line l) (pre @ post))),
      join [NL] (pre @ (hash_prefix @
         hexdigest d (join [NL] (filter (\<lambda>l. \<not> is_hash_line l) (pre @ post)))) # post))"
proof -
  have f: "fst (hash_scan (pre @ h # post) 0 (- 1) []) = int (length pre)"
    using hash_scan_fst_last [OF assms(2,3), of pre 0 "- 1" "[]"] by simp
  have s: "snd (hash_scan (pre @ h # post) 0 (- 1) []) =
      filter (\<lambda>l. \<not> is_hash_line l) (pre @ post)"
    using assms(2) by (simp add: hash_scan_snd)
  show ?thesis
    unfolding hash_update_def Let_def assms(1)
    by (simp add: case_prod_beta f s hash_prefix_def)
qed

lemma hash_update_no_hash_line:
  assumes "\<forall>l\<in>set (split_nl c). \<not> is_hash_line l"
  shows "hash_update d c =
     (hexdigest d c,
      join [NL] (case find_line (\<lambda>l. l = ''## FILE METADATA'') (split_nl c) 0 of
                   None \<Rightarrow> split_nl c
                 | Some i \<Rightarrow> list_insert (metadata_end (split_nl c) (i + 1))
                     (hash_prefix @ hexdigest d c) (split_nl c)))"
proof -
  have f: "fst (hash_scan (split_nl c) 0 (- 1) []) = - 1"
    using assms by (rule hash_scan_fst_none)
  have "filter (\<lambda>l. \<not> is_hash_line l) (split_nl c) = split_nl c"
    using assms by (simp add: filter_id_conv)
  then have s: "snd (hash_scan (split_nl c) 0 (- 1) []) = split_nl c"
    by (simp add: hash_scan_snd)
  show ?thesis
    unfolding hash_update_def Let_def
    by (simp add: case_prod_beta f s hash_prefix_def split: option.split)
qed

lemma hash_line_new: "is_hash_line (hash_prefix @ x)"
  by (simp add: is_hash_line_def)

lemma hash_prefix_no_newline: "NL \<notin> set hash_prefix"
  by (simp add: hash_prefix_def)

lemma hash_update_stable_at:
  assumes lines: "\<forall>l\<in>set (pre @ post). NL \<notin> set l"
    and post: "\<forall>l\<in>set post. \<not> is_hash_line l"
    and dg: "dg = hexdigest d (join [NL] (filter (\<lambda>l. \<not> is_hash_line l) (pre @ post)))"
  shows "hash_update d (join [NL] (pre @ (hash_prefix @ dg) # post)) =
           (dg, join [NL] (pre @ (hash_prefix @ dg) # post))"
proof -
  have nl: "\<forall>l\<in>set (pre @ (hash_prefix @ dg) # post). NL \<notin> set l"
    using lines by (auto simp: dg hexdigest_no_newline hash_prefix_no_newline)
  have sp: "split_nl (join [NL] (pre @ (hash_prefix @ dg) # post)) = pre @ (hash_prefix @ dg) # post"
    by (rule split_join_nl) (use nl in auto)
  show ?thesis
    using hash_update_replace [OF sp hash_line_new post, of d] by (simp add: dg)
qed

lemma hash_update_idem:
  "hash_update d (snd (hash_update d c)) = hash_update d c"
proof (cases "\<exists>l\<in>set (split_nl c). is_hash_line l")
  case True
  then obtain pre h post where sp: "split_nl c = pre @ h # post" and h: "is_hash_line h"
    and post: "\<forall>l\<in>set post. \<not> is_hash_line l"
    using split_list_last_prop [of "split_nl c" is_hash_line] by blast
  have nl: "\<forall>l\<in>set (pre @ post). NL \<notin> set l"
    using split_nl_no_newline [of _ c] by (auto simp: sp)
  show ?thesis
    unfolding hash_update_replace [OF sp h post]
    using hash_update_stable_at [OF nl post refl] by simp
next
  case False
  then have none: "\<forall>l\<in>set (split_nl c). \<not> is_hash_line l"
    by blast
  show ?thesis
  proof (cases "find_line (\<lambda>l. l = ''## FILE METADATA'') (split_nl c) 0")
    case None
    then show ?thesis
      by (simp add: hash_update_no_hash_line [OF none])
  next
    case (Some i)
    define j where "j = metadata_end (split_nl c) (i + 1)"
    define pre where "pre = take j (split_nl c)"
    define post where "post = drop j (split_nl c)"
    have whole: "pre @ post = split_nl c"
      by (simp add: pre_def post_def)
    have nl: "\<forall>l\<in>set (pre @ post). NL \<notin> set l"
      unfolding whole using split_nl_no_newline [of _ c] by blast
    have post: "\<forall>l\<in>set post. \<not> is_hash_line l"
      using none whole by (metis Un_iff set_append)
    have filt: "filter (\<lambda>l. \<not> is_hash_line l) (pre @ post) = split_nl c"
      unfolding whole using none by (simp add: filter_id_conv)
    have first: "hash_update d c = (hexdigest d c, join [NL] (pre @ (hash_prefix @ hexdigest d c) # post))"
      by (simp add: hash_update_no_hash_line [OF none] Some list_insert_def pre_def post_def j_def)
    have "hexdigest d c = hexdigest d (join [NL] (filter (\<lambda>l. \<not> is_hash_line l) (pre @ post)))"
      by (simp only: filt join_split_nl)
    from hash_update_stable_at [OF nl post this] show ?thesis
      by (simp add: first)
  qed
qed

text \<open>The updated text has no carriage return when the text read has none.\<close>

lemma hex_char_no_cr: "CR \<noteq> hex_char n"
proof -
  have "hex_char n \<in> set ''0123456789abcdef''"
    unfolding hex_char_def by (rule nth_mem) simp
  then show ?thesis by auto
qed

lemma hex_digits_no_cr: "CR \<notin> set (hex_digits k n)"
  by (induction k n rule: hex_digits.induct) (simp_all add: hex_char_no_cr)

lemma hash_line_no_cr: "CR \<notin> set (hash_prefix @ hexdigest d s)"
  by (simp add: hexdigest_def hex_digits_no_cr hash_prefix_def)

lemma join_nl_no_cr: "\<forall>l\<in>set ls. CR \<notin> set l \<Longrightarrow> CR \<notin> set (join [NL] ls)"
  by (induction "[NL]" ls rule: join.induct) simp_all

lemma split_nl_no_cr:
  assumes "CR \<notin> set c" and "l \<in> set (split_nl c)"
  shows "CR \<notin> set l"
proof -
  obtain a b where "join [NL] (split_nl c) = a @ l @ b"
    using join_holds_element [OF assms(2)] by blast
  then have "c = a @ l @ b" by simp
  with assms(1) show ?thesis by simp
qed

lemma hash_update_no_cr:
  assumes "CR \<notin> set c"
  shows "CR \<notin> set (snd (hash_update d c))"
proof -
  have lines: "\<forall>l\<in>set (split_nl c). CR \<notin> set l"
    using split_nl_no_cr [OF assms] by blast
  show ?thesis
  proof (cases "\<exists>l\<in>set (split_nl c). is_hash_line l")
    case True
    then obtain pre h post where sp: "split_nl c = pre @ h # post" and h: "is_hash_line h"
      and post: "\<forall>l\<in>set post. \<not> is_hash_line l"
      using split_list_last_prop [of "split_nl c" is_hash_line] by blast
    have "\<forall>l\<in>set (pre @ (hash_prefix @ x) # post). CR \<notin> set l"
      if "CR \<notin> set (hash_prefix @ x)" for x
      using lines that unfolding sp by auto
    from this [OF hash_line_no_cr] show ?thesis
      unfolding hash_update_replace [OF sp h post] snd_conv by (rule join_nl_no_cr)
  next
    case False
    then have none: "\<forall>l\<in>set (split_nl c). \<not> is_hash_line l"
      by blast
    show ?thesis
    proof (cases "find_line (\<lambda>l. l = ''## FILE METADATA'') (split_nl c) 0")
      case None
      then show ?thesis
        using assms by (simp add: hash_update_no_hash_line [OF none])
    next
      case (Some i)
      have "\<forall>l\<in>set (list_insert j x (split_nl c)). CR \<notin> set l"
        if "CR \<notin> set x" for j x
        using lines that
        by (auto simp: list_insert_def dest: in_set_takeD in_set_dropD)
      from this [OF hash_line_no_cr]
      have "CR \<notin> set (join [NL] (list_insert (metadata_end (split_nl c) (i + 1))
          (hash_prefix @ hexdigest d c) (split_nl c)))"
        by (rule join_nl_no_cr)
      then show ?thesis
        by (simp add: hash_update_no_hash_line [OF none] Some)
    qed
  qed
qed

lemma hash_update_nonempty:
  assumes "c \<noteq> []"
  shows "snd (hash_update d c) \<noteq> []"
proof (cases "\<exists>l\<in>set (split_nl c). is_hash_line l")
  case True
  then obtain pre h post where sp: "split_nl c = pre @ h # post" and h: "is_hash_line h"
    and post: "\<forall>l\<in>set post. \<not> is_hash_line l"
    using split_list_last_prop [of "split_nl c" is_hash_line] by blast
  show ?thesis
    unfolding hash_update_replace [OF sp h post]
    by (simp add: join_insert_nonempty hash_prefix_def)
next
  case False
  then have none: "\<forall>l\<in>set (split_nl c). \<not> is_hash_line l"
    by blast
  show ?thesis
  proof (cases "find_line (\<lambda>l. l = ''## FILE METADATA'') (split_nl c) 0")
    case None
    then show ?thesis
      using assms by (simp add: hash_update_no_hash_line [OF none])
  next
    case (Some i)
    then show ?thesis
      by (simp add: hash_update_no_hash_line [OF none] list_insert_def
          join_insert_nonempty hash_prefix_def)
  qed
qed

text \<open>
  C4. Running \<^verbatim>\<open>generate_hash\<close> again on the file the first run left behind gives the
  same verdict, the same reported hash and the same file: the second run reads back the
  text the first one wrote, finds the hash line where the first one put it and writes the
  same text. This holds for every state of the file, readable or not, writable or not,
  whatever its line endings and those of the platform.
\<close>

theorem generate_hash_idempotent:
  "generate_hash d (snd (generate_hash d w)) = generate_hash d w"
proof -
  consider (unread) "no_content (read_file w)"
    | (locked) "\<not> no_content (read_file w)" "\<not> writable w"
    | (written) "\<not> no_content (read_file w)" "writable w"
    by blast
  then show ?thesis
  proof cases
    case unread
    then show ?thesis
      by (simp add: generate_hash_def Let_def)
  next
    case locked
    obtain h u where hu: "hash_update d (the (read_file w)) = (h, u)"
      by (cases "hash_update d (the (read_file w))")
    show ?thesis
      using locked by (simp add: generate_hash_def Let_def write_file_def hu)
  next
    case written
    then obtain c where c: "read_file w = Some c" and ne: "c \<noteq> []"
      by (auto simp: no_content_def split: option.splits)
    have "CR \<notin> set c"
      using c universal_newlines_no_cr by (auto simp: read_file_def)
    from hash_update_no_cr [OF this]
    have cr: "CR \<notin> set (snd (hash_update d c))" .
    obtain h u where hu: "hash_update d c = (h, u)"
      by (cases "hash_update d c")
    have u: "u \<noteq> []"
      using hash_update_nonempty [OF ne, of d] by (simp add: hu)
    have again: "hash_update d u = (h, u)"
      using hash_update_idem [of d c] by (simp add: hu)
    define w' where "w' = w\<lparr>disk := Some (native_newlines (platform w) u)\<rparr>"
    have first: "generate_hash d w = ((True, ''Integrity hash updated: SHA256-'' @ h), w')"
      using written(2) ne
      by (simp add: generate_hash_def write_file_def no_content_def c hu w'_def)
    have back_again: "read_file w' = Some u"
      using cr by (simp add: w'_def read_file_def hu universal_native_newlines)
    have same: "writable w'" "w'\<lparr>disk := Some (native_newlines (platform w') u)\<rparr> = w'"
      using written(2) by (simp_all add: w'_def)
    have second: "generate_hash d w' = ((True, ''Integrity hash updated: SHA256-'' @ h), w')"
      using u by (simp add: generate_hash_def write_file_def no_content_def back_again again same)
    show ?thesis
      by (simp add: first second)
  qed
qed


theorem generate_hash_idempotent_witness:
  "generate_hash byte_sum
     (snd (generate_hash byte_sum
        \<lparr>disk = Some ''## FILE METADATA\<newline>- **Owner**: me\<newline>## NOTES'', writable = True, platform = Posix,
         stdin = [], prompts = []\<rparr>)) =
   generate_hash byte_sum
     \<lparr>disk = Some ''## FILE METADATA\<newline>- **Owner**: me\<newline>## NOTES'', writable = True, platform = Posix,
      stdin = [], prompts = []\<rparr>"
  by (rule generate_hash_idempotent)

lemma hash_update_fst:
  "fst (hash_update d c) =
     hexdigest d (join [NL] (filter (\<lambda>l. \<not> is_hash_line l) (split_nl c)))"
  by (simp add: hash_update_def Let_def case_prod_beta hash_scan_snd)

lemma same_filter:
  "list_all2 (\<lambda>a b. a = b \<or> (is_hash_line a \<and> is_hash_line b)) xs ys \<Longrightarrow>
   filter (\<lambda>l. \<not> is_hash_line l) xs = filter (\<lambda>l. \<not> is_hash_line l) ys"
  by (induction rule: list_all2_induct) auto

lemma same_but_hash_lines_empty:
  assumes "same_but_hash_lines c1 c2"
  shows "(c1 = []) = (c2 = [])"
proof -
  let ?R = "\<lambda>a b. a = b \<or> (is_hash_line a \<and> is_hash_line b)"
  have no: "\<not> is_hash_line []"
    by (simp add: is_hash_line_def hash_prefix_def)
  have only_empty: "split_nl c = [[]] \<Longrightarrow> c = []" for c
    using join_split_nl [of c] by simp
  have rel: "list_all2 ?R (split_nl c1) (split_nl c2)"
    using assms by (simp add: same_but_hash_lines_def)
  show ?thesis
  proof
    assume "c1 = []"
    with rel have "list_all2 ?R [[]] (split_nl c2)" by simp
    then have "split_nl c2 = [[]]"
      using no by (auto simp: list_all2_Cons1)
    then show "c2 = []" by (rule only_empty)
  next
    assume "c2 = []"
    with rel have "list_all2 ?R (split_nl c1) [[]]" by simp
    then have "split_nl c1 = [[]]"
      using no by (auto simp: list_all2_Cons2)
    then show "c1 = []" by (rule only_empty)
  qed
qed

text \<open>
  C5. Two documents (the texts read from two files) that differ only inside their hash
  lines get the same digest, and \<^verbatim>\<open>generate_hash\<close> gives the same verdict and message,
  reported hash included, on both: the digest is taken over the lines that are not hash
  lines.
\<close>

theorem hash_ignores_hash_lines:
  assumes "same_but_hash_lines c1 c2"
    and "read_file w1 = Some c1" and "read_file w2 = Some c2" and "writable w1 = writable w2"
  shows "fst (hash_update d c1) = fst (hash_update d c2) \<and>
         fst (generate_hash d w1) = fst (generate_hash d w2)"
proof -
  have h: "fst (hash_update d c1) = fst (hash_update d c2)"
    using same_filter [OF assms(1) [unfolded same_but_hash_lines_def]]
    by (simp add: hash_update_fst)
  have e: "(c1 = []) = (c2 = [])"
    by (rule same_but_hash_lines_empty [OF assms(1)])
  have g: "fst (generate_hash d w) =
      (if c = [] then (False, ''Could not read file content.'')
       else if writable w then (True, ''Integrity hash updated: SHA256-'' @ fst (hash_update d c))
       else (False, ''Failed to write updated content to file.''))"
    if "read_file w = Some c" for w c
    using that
    by (simp add: generate_hash_def no_content_def write_file_def case_prod_beta)
  show ?thesis
    by (simp add: h g [OF assms(2)] g [OF assms(3)] e assms(4))
qed

theorem hash_ignores_hash_lines_witness:
  "fst (generate_hash byte_sum
          \<lparr>disk = Some ''title\<newline>- **Integrity Hash**: SHA256-00\<newline>body'', writable = True, platform = Posix,
           stdin = [], prompts = []\<rparr>) =
   fst (generate_hash byte_sum
          \<lparr>disk = Some ''title\<newline>- **Integrity Hash**: SHA256-ff\<newline>body'', writable = True, platform = Posix,
           stdin = [], prompts = []\<rparr>)"
proof -
  have same: "same_but_hash_lines ''title\<newline>- **Integrity Hash**: SHA256-00\<newline>body''
      ''title\<newline>- **Integrity Hash**: SHA256-ff\<newline>body''"
    by (simp add: same_but_hash_lines_def is_hash_line_def hash_prefix_def)
  show ?thesis
    using hash_ignores_hash_lines [OF same, of
        "\<lparr>disk = Some ''title\<newline>- **Integrity Hash**: SHA256-00\<newline>body'', writable = True, platform = Posix,
          stdin = [], prompts = []\<rparr>"
        "\<lparr>disk = Some ''title\<newline>- **Integrity Hash**: SHA256-ff\<newline>body'', writable = True, platform = Posix,
          stdin = [], prompts = []\<rparr>" byte_sum]
    by (simp add: read_file_def)
qed

lemma find_line_None: "(find_line P ls i = None) = (\<forall>l\<in>set ls. \<not> P l)"
  by (induction ls arbitrary: i) auto

text \<open>
  Without a hash line and without the metadata marker the updated text is the text read;
  what becomes of the file depends on whether it can be written.
\<close>

lemma hash_update_plain:
  assumes "no_hash_line c" and "no_metadata_marker c"
  shows "hash_update d c = (hexdigest d c, c)"
proof -
  have none: "\<forall>l\<in>set (split_nl c). \<not> is_hash_line l"
    using assms(1) by (simp add: no_hash_line_def list_all_iff)
  have "find_line (\<lambda>l. l = ''## FILE METADATA'') (split_nl c) 0 = None"
    using assms(2) by (simp add: find_line_None no_metadata_marker_def list_all_iff)
  then show ?thesis
    by (simp add: hash_update_no_hash_line [OF none])
qed

lemma generate_hash_plain:
  assumes "read_file w = Some c" and "c \<noteq> []"
    and "no_hash_line c" and "no_metadata_marker c"
  shows "generate_hash d w =
     (if writable w
      then ((True, ''Integrity hash updated: SHA256-'' @ hexdigest d c),
            w\<lparr>disk := Some (native_newlines (platform w) c)\<rparr>)
      else ((False, ''Failed to write updated content to file.''), w))"
  using assms(1,2)
  by (simp add: generate_hash_def no_content_def write_file_def
      hash_update_plain [OF assms(3,4)])

text \<open>
  C10 (as amended). The document is the text read from the file, where every line ending
  is a line feed. It is not empty, it has no hash line and no line equal to
  \<^verbatim>\<open>## FILE METADATA\<close>, and the file can be written. Then the updated text is the text
  read, \<^verbatim>\<open>generate_hash\<close> succeeds and reports the digest of the text read, and the file
  holds that text with the line endings of the platform. A file that held the text with
  these line endings is what it was.
\<close>

theorem generate_hash_without_anchor:
  assumes "read_file w = Some c" and "c \<noteq> []" and "writable w"
    and "no_hash_line c" and "no_metadata_marker c"
  shows "hash_update d c = (hexdigest d c, c) \<and>
         generate_hash d w =
           ((True, ''Integrity hash updated: SHA256-'' @ hexdigest d c),
            w\<lparr>disk := Some (native_newlines (platform w) c)\<rparr>) \<and>
         (disk w = Some (native_newlines (platform w) c) \<longrightarrow> snd (generate_hash d w) = w)"
proof -
  have same: "hash_update d c = (hexdigest d c, c)"
    by (rule hash_update_plain [OF assms(4,5)])
  have run: "generate_hash d w =
      ((True, ''Integrity hash updated: SHA256-'' @ hexdigest d c),
       w\<lparr>disk := Some (native_newlines (platform w) c)\<rparr>)"
    using assms(3) by (simp add: generate_hash_plain [OF assms(1,2,4,5)])
  have "w\<lparr>disk := Some (native_newlines (platform w) c)\<rparr> = w"
    if "disk w = Some (native_newlines (platform w) c)"
    using that by (cases w) simp
  with same run show ?thesis
    by simp
qed

theorem generate_hash_without_anchor_witness:
  "hash_update byte_sum ''# notes\<newline>more'' = (hexdigest byte_sum ''# notes\<newline>more'', ''# notes\<newline>more'') \<and>
   generate_hash byte_sum
     \<lparr>disk = Some ''# notes\<newline>more'', writable = True, platform = Posix, stdin = [], prompts = []\<rparr> =
     ((True, ''Integrity hash updated: SHA256-'' @ hexdigest byte_sum ''# notes\<newline>more''),
      \<lparr>disk = Some ''# notes\<newline>more'', writable = True, platform = Posix, stdin = [], prompts = []\<rparr>) \<and>
   snd (generate_hash byte_sum
     \<lparr>disk = Some ''# notes\<newline>more'', writable = True, platform = Posix, stdin = [], prompts = []\<rparr>) =
     \<lparr>disk = Some ''# notes\<newline>more'', writable = True, platform = Posix, stdin = [], prompts = []\<rparr>"
proof -
  let ?w = "\<lparr>disk = Some ''# notes\<newline>more'', writable = True, platform = Posix, stdin = [], prompts = []\<rparr>"
  have r: "read_file ?w = Some ''# notes\<newline>more''"
    by (simp add: read_file_def)
  have ne: "''# notes\<newline>more'' \<noteq> []"
    by simp
  have wr: "writable ?w"
    by simp
  have a: "no_hash_line ''# notes\<newline>more''"
    by (simp add: no_hash_line_def is_hash_line_def hash_prefix_def)
  have b: "no_metadata_marker ''# notes\<newline>more''"
    by (simp add: no_metadata_marker_def)
  show ?thesis
    using generate_hash_without_anchor [OF r ne wr a b, of byte_sum]
    by (simp add: native_newlines_posix)
qed

text \<open>
  C10 as stated fails three times. The empty document has neither line: the guard
  \<^verbatim>\<open>if not self.content\<close> makes the operation fail, and no hash is reported. A file that
  cannot be written makes it fail too. And a file whose lines end in carriage return and
  line feed has neither line, whether one looks at the file or at the text read from it:
  the operation succeeds, but the hash it reports is that of the text with line feeds, and
  on a platform whose line ending is the line feed the file it leaves behind is not the
  original, the carriage return is gone.
\<close>

theorem generate_hash_without_anchor_counterexample:
  "no_hash_line [] \<and> no_metadata_marker [] \<and>
   generate_hash byte_sum \<lparr>disk = Some [], writable = True, platform = Posix, stdin = [], prompts = []\<rparr> =
     ((False, ''Could not read file content.''),
      \<lparr>disk = Some [], writable = True, platform = Posix, stdin = [], prompts = []\<rparr>) \<and>
   no_hash_line ''# notes'' \<and> no_metadata_marker ''# notes'' \<and>
   generate_hash byte_sum \<lparr>disk = Some ''# notes'', writable = False, platform = Posix, stdin = [], prompts = []\<rparr> =
     ((False, ''Failed to write updated content to file.''),
      \<lparr>disk = Some ''# notes'', writable = False, platform = Posix, stdin = [], prompts = []\<rparr>) \<and>
   no_hash_line (''# notes'' @ [CR, NL] @ ''more'') \<and>
   no_metadata_marker (''# notes'' @ [CR, NL] @ ''more'') \<and>
   no_hash_line ''# notes\<newline>more'' \<and> no_metadata_marker ''# notes\<newline>more'' \<and>
   read_file \<lparr>disk = Some (''# notes'' @ [CR, NL] @ ''more''), writable = True, platform = Posix,
     stdin = [], prompts = []\<rparr> = Some ''# notes\<newline>more'' \<and>
   generate_hash byte_sum
     \<lparr>disk = Some (''# notes'' @ [CR, NL] @ ''more''), writable = True, platform = Posix,
      stdin = [], prompts = []\<rparr> =
     ((True, ''Integrity hash updated: SHA256-'' @ hexdigest byte_sum ''# notes\<newline>more''),
      \<lparr>disk = Some ''# notes\<newline>more'', writable = True, platform = Posix, stdin = [], prompts = []\<rparr>)"
proof -
  let ?locked = "\<lparr>disk = Some ''# notes'', writable = False, platform = Posix, stdin = [], prompts = []\<rparr>"
  let ?dos = "\<lparr>disk = Some (''# notes'' @ [CR, NL] @ ''more''), writable = True, platform = Posix,
     stdin = [], prompts = []\<rparr>"
  have empty: "no_hash_line [] \<and> no_metadata_marker [] \<and>
      generate_hash byte_sum \<lparr>disk = Some [], writable = True, platform = Posix, stdin = [], prompts = []\<rparr> =
        ((False, ''Could not read file content.''),
         \<lparr>disk = Some [], writable = True, platform = Posix, stdin = [], prompts = []\<rparr>)"
    by code_simp
  have h1: "no_hash_line ''# notes''" and m1: "no_metadata_marker ''# notes''"
    by code_simp+
  have r1: "read_file ?locked = Some ''# notes''"
    by code_simp
  have locked: "generate_hash byte_sum ?locked =
      ((False, ''Failed to write updated content to file.''), ?locked)"
    using generate_hash_plain [OF r1 _ h1 m1, of byte_sum] by simp
  have raw: "no_hash_line (''# notes'' @ [CR, NL] @ ''more'') \<and>
      no_metadata_marker (''# notes'' @ [CR, NL] @ ''more'')"
    by code_simp
  have h2: "no_hash_line ''# notes\<newline>more''" and m2: "no_metadata_marker ''# notes\<newline>more''"
    by code_simp+
  have r2: "read_file ?dos = Some ''# notes\<newline>more''"
    by code_simp
  have dos: "generate_hash byte_sum ?dos =
      ((True, ''Integrity hash updated: SHA256-'' @ hexdigest byte_sum ''# notes\<newline>more''),
       \<lparr>disk = Some ''# notes\<newline>more'', writable = True, platform = Posix, stdin = [], prompts = []\<rparr>)"
    using generate_hash_plain [OF r2 _ h2 m2, of byte_sum]
    by (simp add: native_newlines_posix)
  from empty h1 m1 locked raw h2 m2 r2 dos show ?thesis
    by blast
qed


subsection \<open>Checkpoints\<close>

lemma checkpoint_loop_outside:
  "\<not> cp \<Longrightarrow> \<forall>l\<in>set ls. \<not> occurs_in history_marker l \<Longrightarrow>
   checkpoint_loop e evo cp found ls = (ls, found)"
  by (induction ls arbitrary: evo) simp_all

lemma checkpoint_loop_before:
  "\<forall>l\<in>set pre. \<not> occurs_in evolution_marker l \<Longrightarrow>
   checkpoint_loop e False False found (pre @ rest) =
     (pre @ fst (checkpoint_loop e False False found rest),
      snd (checkpoint_loop e False False found rest))"
  by (induction pre) (simp_all add: case_prod_beta)

lemma find_line_first:
  "\<forall>l\<in>set pre. \<not> P l \<Longrightarrow> P m \<Longrightarrow> find_line P (pre @ m # post) i = Some (i + length pre)"
  by (induction pre arbitrary: i) simp_all

lemma evolution_end_overrun:
  "\<forall>k. j \<le> k \<and> k < length lines \<longrightarrow>
        \<not> startswith (lines ! k) ''## '' \<or> occurs_in evolution_marker (lines ! k) \<Longrightarrow>
   evolution_end lines j = Inl IndexError"
proof (induction lines j rule: evolution_end.induct)
  case (1 lines j)
  show ?case
  proof (cases "j < length lines")
    case False
    then show ?thesis by (simp add: evolution_end.simps [of lines j])
  next
    case True
    have here: "\<not> startswith (lines ! j) ''## '' \<or> occurs_in evolution_marker (lines ! j)"
      using "1.prems" True by auto
    have later: "\<forall>k. Suc j \<le> k \<and> k < length lines \<longrightarrow>
        \<not> startswith (lines ! k) ''## '' \<or> occurs_in evolution_marker (lines ! k)"
      using "1.prems" by auto
    show ?thesis
    proof (cases "startswith (lines ! j) ''## ''")
      case False
      with True "1.IH"(1) later show ?thesis
        by (simp add: evolution_end.simps [of lines j])
    next
      case s: True
      with here have "occurs_in evolution_marker (lines ! j)" by simp
      with True s "1.IH"(2) later show ?thesis
        by (simp add: evolution_end.simps [of lines j])
    qed
  qed
qed

lemma checkpoint_loop_no_history:
  assumes "\<forall>l\<in>set pre. \<not> occurs_in evolution_marker l"
    and "occurs_in evolution_marker m"
    and "\<forall>l\<in>set post. \<not> occurs_in history_marker l"
  shows "checkpoint_loop e False False False (pre @ m # post) = (pre @ m # post, False)"
proof -
  have "checkpoint_loop e True False False post = (post, False)"
    by (rule checkpoint_loop_outside) (use assms(3) in simp_all)
  then have tail: "checkpoint_loop e False False False (m # post) = (m # post, False)"
    using assms(2) by simp
  show ?thesis
    by (simp only: checkpoint_loop_before [OF assms(1)] tail fst_conv snd_conv)
qed

lemma evolution_end_after:
  assumes "\<forall>l\<in>set post. \<not> startswith l ''## '' \<or> occurs_in evolution_marker l"
  shows "evolution_end (pre @ m # post) (Suc (length pre)) = Inl IndexError"
proof (rule evolution_end_overrun, intro allI impI)
  fix k assume k: "Suc (length pre) \<le> k \<and> k < length (pre @ m # post)"
  then have "(pre @ m # post) ! k = post ! (k - length pre - 1)"
    by (simp add: nth_append nth_Cons')
  moreover have "post ! (k - length pre - 1) \<in> set post"
    using k by (intro nth_mem) auto
  ultimately show "\<not> startswith ((pre @ m # post) ! k) ''## '' \<or>
      occurs_in evolution_marker ((pre @ m # post) ! k)"
    using assms by auto
qed

text \<open>
  C9. The document has a first line with the marker \<^verbatim>\<open>## EVOLUTION TRACKING\<close> (the line
  \<open>m\<close>, after the lines \<open>pre\<close>), no line after it contains \<^verbatim>\<open>### Checkpoint History\<close>, and
  every line after it either does not start with \<^verbatim>\<open>## \<close> or contains the marker. Then the
  scan for the end of the section runs past the last line and \<^verbatim>\<open>add_checkpoint\<close> ends
  with an \<^verbatim>\<open>IndexError\<close>: nothing is written and no Checkpoint History is created.
\<close>

theorem add_checkpoint_index_error:
  assumes "read_file w = Some content"
    and "split_nl content = pre @ m # post"
    and "\<forall>l\<in>set pre. \<not> occurs_in evolution_marker l"
    and "occurs_in evolution_marker m"
    and "\<forall>l\<in>set post. \<not> occurs_in history_marker l"
    and "\<forall>l\<in>set post. \<not> startswith l ''## '' \<or> occurs_in evolution_marker l"
  shows "add_checkpoint now description w = Inl IndexError"
proof -
  have ne: "content \<noteq> []"
  proof
    assume "content = []"
    with assms(2) have "m = []" by (simp add: Cons_eq_append_conv)
    with assms(4) show False by (simp add: evolution_marker_def)
  qed
  have first: "find_line (occurs_in evolution_marker) (pre @ m # post) 0 = Some (length pre)"
    using find_line_first [of pre "occurs_in evolution_marker" m post 0] assms(3,4) by simp
  have "create_history e (pre @ m # post) = Inl IndexError" for e
    by (simp add: create_history_def first evolution_end_after [OF assms(6)])
  then show ?thesis
    using assms(1) ne
    by (simp add: add_checkpoint_def no_content_def assms(2)
        checkpoint_loop_no_history [OF assms(3,4,5)])
qed

theorem add_checkpoint_index_error_witness:
  "add_checkpoint ''2024-06-01T12:00:00Z'' ''second''
     \<lparr>disk = Some ''## EVOLUTION TRACKING\<newline>notes'', writable = True, platform = Posix, stdin = [], prompts = []\<rparr>
   = Inl IndexError"
proof -
  have sp: "split_nl ''## EVOLUTION TRACKING\<newline>notes'' = [] @ ''## EVOLUTION TRACKING'' # [''notes'']"
    by simp
  show ?thesis
    by (rule add_checkpoint_index_error [OF _ sp])
      (simp_all add: read_file_def evolution_marker_def history_marker_def)
qed

text \<open>
  C3 does not hold of the code. Here the Checkpoint History exists and no top-level
  marker follows it: the first loop never reaches an insertion point, the second loop is
  skipped because the subsection was found, and the operation reports success after
  writing the text back as it was, without the new checkpoint.
\<close>

theorem add_checkpoint_silent:
  "add_checkpoint ''2024-06-01T12:00:00Z'' ''second''
     \<lparr>disk = Some ''## EVOLUTION TRACKING\<newline>### Checkpoint History\<newline>- **2024-01-01T00:00:00Z**: first'',
      writable = True, platform = Posix, stdin = [], prompts = []\<rparr>
   = Inr ((True, ''Checkpoint added: second''),
     \<lparr>disk = Some ''## EVOLUTION TRACKING\<newline>### Checkpoint History\<newline>- **2024-01-01T00:00:00Z**: first'',
      writable = True, platform = Posix, stdin = [], prompts = []\<rparr>)"
  by code_simp

text \<open>
  What does hold of the first and of the second loop: they only insert. The lines of the
  document are kept, unchanged and in their order.
\<close>

lemma one_inserted_here: "one_inserted x xs (x # xs)"
  unfolding one_inserted_def by (rule exI [of _ 0]) simp

lemma one_inserted_next: "one_inserted x (l # ls) (l # x # ls)"
  unfolding one_inserted_def by (rule exI [of _ 1]) simp

lemma one_inserted_Cons: "one_inserted x ls r \<Longrightarrow> one_inserted x (l # ls) (l # r)"
proof -
  assume "one_inserted x ls r"
  then obtain k where "r = take k ls @ x # drop k ls"
    unfolding one_inserted_def ..
  then have "l # r = take (Suc k) (l # ls) @ x # drop (Suc k) (l # ls)"
    by simp
  then show ?thesis
    unfolding one_inserted_def ..
qed

lemma checkpoint_loop_only_inserts:
  "fst (checkpoint_loop e evo cp found ls) = ls \<or>
   one_inserted e ls (fst (checkpoint_loop e evo cp found ls))"
proof (induction ls arbitrary: evo cp found)
  case Nil
  then show ?case by simp
next
  case (Cons l ls)
  have step: "l # r = l # ls \<or> one_inserted e (l # ls) (l # r)"
    if "r = ls \<or> one_inserted e ls r" for r
    using that one_inserted_Cons [of e ls r l] by blast
  consider (marker) "occurs_in evolution_marker l"
    | (history) "\<not> occurs_in evolution_marker l" "evo \<and> occurs_in history_marker l"
    | (before) "\<not> occurs_in evolution_marker l" "\<not> (evo \<and> occurs_in history_marker l)"
        "evo \<and> cp \<and> startswith l ''## '' \<and> \<not> occurs_in history_marker l"
    | (after) "\<not> occurs_in evolution_marker l" "\<not> (evo \<and> occurs_in history_marker l)"
        "\<not> (evo \<and> cp \<and> startswith l ''## '' \<and> \<not> occurs_in history_marker l)"
        "evo \<and> cp \<and> occurs_in ''- ****:'' l"
    | (other) "\<not> occurs_in evolution_marker l" "\<not> (evo \<and> occurs_in history_marker l)"
        "\<not> (evo \<and> cp \<and> startswith l ''## '' \<and> \<not> occurs_in history_marker l)"
        "\<not> (evo \<and> cp \<and> occurs_in ''- ****:'' l)"
    by blast
  then show ?case
  proof cases
    case marker
    then have "fst (checkpoint_loop e evo cp found (l # ls)) =
        l # fst (checkpoint_loop e True cp found ls)"
      by (auto simp: case_prod_beta)
    with step [OF Cons.IH [of True cp found]] show ?thesis by simp
  next
    case history
    then have "fst (checkpoint_loop e evo cp found (l # ls)) =
        l # fst (checkpoint_loop e evo True True ls)"
      by (auto simp: case_prod_beta)
    with step [OF Cons.IH [of evo True True]] show ?thesis by simp
  next
    case before
    then have "fst (checkpoint_loop e evo cp found (l # ls)) = e # l # ls"
      by auto
    with one_inserted_here [of e "l # ls"] show ?thesis by simp
  next
    case after
    then have "fst (checkpoint_loop e evo cp found (l # ls)) = l # e # ls"
      by auto
    with one_inserted_next [of e l ls] show ?thesis by simp
  next
    case other
    then have "fst (checkpoint_loop e evo cp found (l # ls)) =
        l # fst (checkpoint_loop e evo cp found ls)"
      by (auto simp: case_prod_beta)
    with step [OF Cons.IH [of evo cp found]] show ?thesis by simp
  qed
qed

lemma create_history_only_inserts:
  assumes "create_history e ls = Inr r"
  shows "r = ls \<or> (\<exists>j. r = take j ls @ [NL # history_marker, rstrip e] @ drop j ls)"
proof (cases "find_line (occurs_in evolution_marker) ls 0")
  case None
  with assms show ?thesis by (simp add: create_history_def)
next
  case (Some i)
  with assms obtain j where j: "evolution_end ls (i + 1) = Inr j"
    and r: "r = list_insert (j + 1) (rstrip e) (list_insert j (NL # history_marker) ls)"
    by (auto simp: create_history_def split: sum.splits)
  have "j \<le> length ls"
    using j
  proof (induction ls "i + 1" arbitrary: i rule: evolution_end.induct)
    case (1 lines)
    then show ?case
      by (subst (asm) (2) evolution_end.simps) (auto split: if_splits)
  qed
  then have "r = take j ls @ [NL # history_marker, rstrip e] @ drop j ls"
    by (simp add: r list_insert_def)
  then show ?thesis by blast
qed

subsection \<open>The JSON projection\<close>

text \<open>
  The group of the metadata pattern holds only backslashes and the letters \<^verbatim>\<open>s\<close> and
  \<^verbatim>\<open>S\<close>: it is one line, and it does not start with a bullet. So no document gives the
  mapping an entry.
\<close>

lemma metadata_lazy_class:
  "metadata_lazy acc s = Some b \<Longrightarrow> list_all metadata_class acc \<Longrightarrow> list_all metadata_class b"
proof (induction s arbitrary: acc)
  case Nil
  then show ?case
    by (cases "metadata_lookahead []") (auto simp: list_all_iff)
next
  case (Cons c cs)
  show ?case
  proof (cases "metadata_lookahead (c # cs)")
    case True
    with Cons.prems show ?thesis by (auto simp: list_all_iff)
  next
    case False
    show ?thesis
    proof (cases "metadata_class c")
      case True
      with False Cons.prems have "metadata_lazy (c # acc) cs = Some b" by simp
      moreover have "list_all metadata_class (c # acc)"
        using True Cons.prems(2) by simp
      ultimately show ?thesis by (rule Cons.IH)
    next
      case no: False
      with False Cons.prems show ?thesis by simp
    qed
  qed
qed

lemma re_search_Some: "re_search m s = Some b \<Longrightarrow> \<exists>t. m t = Some b"
  by (induction s) (auto split: option.splits)

lemma metadata_body_class:
  assumes "re_search metadata_at content = Some b"
  shows "list_all metadata_class b"
proof -
  obtain t where "metadata_at t = Some b"
    using re_search_Some [OF assms] by blast
  then have "metadata_lazy [] (drop 17 t) = Some b"
    by (simp add: metadata_at_def split: if_splits)
  then show ?thesis
    by (rule metadata_lazy_class) simp
qed

lemma metadata_class_chars: "metadata_class c \<Longrightarrow> c \<noteq> NL \<and> c \<noteq> CHR ''-''"
  by (auto simp: metadata_class_def)

lemma class_body_no_entry:
  assumes "list_all metadata_class b"
  shows "metadata_loop (split_nl b) md = md"
proof -
  have "NL \<notin> set b"
    using assms metadata_class_chars by (auto simp: list_all_iff)
  then have one: "split_nl b = [b]"
    by (rule split_nl_line)
  have no: "\<not> startswith b ''- **''"
  proof (cases b)
    case Nil
    then show ?thesis by simp
  next
    case (Cons a l)
    with assms have "a \<noteq> CHR ''-''"
      using metadata_class_chars [of a] by simp
    with Cons show ?thesis by simp
  qed
  show ?thesis
    unfolding one using no by simp
qed

lemma parse_metadata_empty: "parse_metadata content = Map.empty"
proof (cases "re_search metadata_at content")
  case None
  then show ?thesis by (simp add: parse_metadata_def)
next
  case (Some b)
  then show ?thesis
    using class_body_no_entry [OF metadata_body_class [OF Some]]
    by (simp add: parse_metadata_def)
qed

text \<open>
  C2 does not hold of the code. The line \<^verbatim>\<open>- **Schema Version**: 1.0\<close> has the exact shape
  (the key-value pattern matches it), it is in the body of FILE METADATA, and the mapping
  that \<^verbatim>\<open>to_json\<close> builds has no entry at all.
\<close>

theorem to_json_metadata_lost:
  "key_value_match ''- **Schema Version**: 1.0'' = Some (''Schema Version'', ''1.0'') \<and>
   map_option metadata (snd (to_json ''notes.aidata'' ''notes.json'' None
     \<lparr>disk = Some ''# AI LEARNING FILE: notes\<newline>## FILE METADATA\<newline>- **Schema Version**: 1.0\<newline>## DOMAIN CONTEXT\<newline>'',
      writable = True, platform = Posix, stdin = [], prompts = []\<rparr>))
     = Some Map.empty"
proof
  show "key_value_match ''- **Schema Version**: 1.0'' = Some (''Schema Version'', ''1.0'')"
    by code_simp
  show "map_option metadata (snd (to_json ''notes.aidata'' ''notes.json'' None
     \<lparr>disk = Some ''# AI LEARNING FILE: notes\<newline>## FILE METADATA\<newline>- **Schema Version**: 1.0\<newline>## DOMAIN CONTEXT\<newline>'',
      writable = True, platform = Posix, stdin = [], prompts = []\<rparr>))
     = Some Map.empty"
    by (simp add: to_json_def read_file_def no_content_def build_json_def parse_metadata_empty)
qed


subsection \<open>Duplicate learnings\<close>

lemma learnings_found_nonempty:
  "re_search learnings_at content = Some section_content \<Longrightarrow> content \<noteq> []"
  by (auto simp: learnings_at_def learnings_header_def)

text \<open>
  C8 (as amended). The scan of the section has counted at least one duplicate and
  \<^verbatim>\<open>auto_confirm\<close> is off: the operation shows the prompt with the count and reads one
  line. If the line, in lower case, is not \<^verbatim>\<open>y\<close>, it returns failure with
  \<^verbatim>\<open>Operation cancelled by user.\<close>, and the file is what it was: nothing is written.
\<close>

theorem deduplicate_declined:
  assumes "read_file w = Some content"
    and "re_search learnings_at content = Some section_content"
    and "dedup_scan d section_content = (recon, dup)" and "0 < dup"
    and "stdin w = response # rest" and "lower response \<noteq> ''y''"
  shows "deduplicate_learnings d False w =
           Inr ((False, ''Operation cancelled by user.''),
                w\<lparr>stdin := rest, prompts := prompts w @ [confirm_prompt dup]\<rparr>)"
  using assms learnings_found_nonempty [OF assms(2)]
  by (simp add: deduplicate_learnings_def no_content_def py_input_def)

theorem deduplicate_declined_witness:
  "deduplicate_learnings byte_sum False
     \<lparr>disk = Some ''## AUTOMATED LEARNINGS\<newline>\<newline>### Learning Entry - 2024-01-01 10:00:00\<newline>A\<newline>\<newline>### Learning Entry - 2024-01-01 10:00:00\<newline>A\<newline>'',
      writable = True, platform = Posix, stdin = [''n''], prompts = []\<rparr>
   = Inr ((False, ''Operation cancelled by user.''),
     \<lparr>disk = Some ''## AUTOMATED LEARNINGS\<newline>\<newline>### Learning Entry - 2024-01-01 10:00:00\<newline>A\<newline>\<newline>### Learning Entry - 2024-01-01 10:00:00\<newline>A\<newline>'',
      writable = True, platform = Posix, stdin = [], prompts = [''Found 1 duplicate entries. Remove them? (y/N): '']\<rparr>)"
proof -
  let ?sec = "''\<newline>### Learning Entry - 2024-01-01 10:00:00\<newline>A\<newline>\<newline>### Learning Entry - 2024-01-01 10:00:00\<newline>A\<newline>''"
  let ?doc = "''## AUTOMATED LEARNINGS\<newline>'' @ ?sec"
  let ?w = "\<lparr>disk = Some ?doc, writable = True, platform = Posix, stdin = [''n''], prompts = []\<rparr>"
  have found: "re_search learnings_at ?doc = Some ?sec"
    by code_simp
  have scan: "dedup_scan byte_sum ?sec =
      ([''\<newline>### Learning Entry - 2024-01-01 10:00:00\<newline>'', ''A\<newline>''], 1)"
    by code_simp
  have no: "lower ''n'' \<noteq> ''y''"
    by code_simp
  have pr: "confirm_prompt (Suc 0) = ''Found 1 duplicate entries. Remove them? (y/N): ''"
    by code_simp
  have d: "read_file ?w = Some ?doc"
    by code_simp
  have pos: "(0::nat) < 1"
    by simp
  have inp: "stdin ?w = ''n'' # []"
    by simp
  show ?thesis
    using deduplicate_declined [OF d found scan pos inp no] by (simp add: pr)
qed

text \<open>
  C8 as stated fails for the answer \<^verbatim>\<open>Y\<close>, which is not \<^verbatim>\<open>y\<close>: the answer is compared
  after \<^verbatim>\<open>lower()\<close>, so the duplicate is removed and the file is rewritten.
\<close>

theorem deduplicate_capital_y_counterexample:
  "''Y'' \<noteq> ''y'' \<and>
   deduplicate_learnings byte_sum False
     \<lparr>disk = Some ''## AUTOMATED LEARNINGS\<newline>\<newline>### Learning Entry - 2024-01-01 10:00:00\<newline>A\<newline>\<newline>### Learning Entry - 2024-01-01 10:00:00\<newline>A\<newline>'',
      writable = True, platform = Posix, stdin = [''Y''], prompts = []\<rparr>
   = Inr ((True, ''Successfully deduplicated. Removed 1 duplicate entries.''),
     \<lparr>disk = Some ''## AUTOMATED LEARNINGS\<newline>### Learning Entry - 2024-01-01 10:00:00\<newline>A'',
      writable = True, platform = Posix, stdin = [], prompts = [''Found 1 duplicate entries. Remove them? (y/N): '']\<rparr>)"
  by code_simp

text \<open>What the loop does with the entries it is given.\<close>

lemma match_pat_literal:
  "match_pat (map Lit s @ ps) x = (\<exists>y. x = s @ y \<and> match_pat ps y)"
proof (induction s arbitrary: x)
  case Nil
  then show ?case by simp
next
  case (Cons c s)
  then show ?case by (cases x) auto
qed

lemma match_pat_length: "match_pat ps x \<Longrightarrow> length ps \<le> length x"
  by (induction ps x rule: match_pat.induct) auto

lemma match_pat_take: "match_pat ps x \<Longrightarrow> match_pat ps (take (length ps) x)"
  by (induction ps x rule: match_pat.induct) auto

lemma match_pat_prefix: "match_pat (ps @ qs) x \<Longrightarrow> match_pat ps x"
  by (induction ps x rule: match_pat.induct) auto

lemma entry_header_shape:
  assumes "match_pat entry_header_pat h"
  obtains t where "h = ''\<newline>### Learning Entry - '' @ t" and "match_pat timestamp_pat t"
proof -
  have "match_pat (map Lit ''\<newline>### Learning Entry - '' @ (timestamp_pat @ [Lit NL])) h"
    using assms by (simp add: entry_header_pat_def)
  then obtain t where h: "h = ''\<newline>### Learning Entry - '' @ t"
    and "match_pat (timestamp_pat @ [Lit NL]) t"
    unfolding match_pat_literal by blast
  then have "match_pat timestamp_pat t"
    using match_pat_prefix by blast
  with h show ?thesis by (rule that)
qed

text \<open>
  In a header that the split has cut out, the search for the timestamp finds the 19
  characters after \<^verbatim>\<open>### Learning Entry - \<close>.
\<close>

lemma header_timestamp:
  assumes "match_pat entry_header_pat h"
  shows "re_search timestamp_at h = Some (take 19 (drop 22 h))"
    and "length (take 19 (drop 22 h)) = 19"
proof -
  obtain t where h: "h = ''\<newline>### Learning Entry - '' @ t" and t: "match_pat timestamp_pat t"
    using assms by (rule entry_header_shape)
  have len: "19 \<le> length t"
    using match_pat_length [OF t] by (simp add: timestamp_pat_def)
  then obtain x xs where tx: "t = x # xs"
    by (cases t) auto
  have "re_search timestamp_at t = Some (take 19 t)"
    using t by (simp add: tx timestamp_at_def)
  then show "re_search timestamp_at h = Some (take 19 (drop 22 h))"
    by (simp add: h timestamp_at_def timestamp_pat_def isdigit_def)
  show "length (take 19 (drop 22 h)) = 19"
    using len by (simp add: h)
qed

lemma join_lines_inject:
  assumes "ls \<noteq> []" and "ms \<noteq> []"
    and "\<forall>l\<in>set ls. NL \<notin> set l" and "\<forall>l\<in>set ms. NL \<notin> set l"
    and "join [NL] ls = join [NL] ms"
  shows "ls = ms"
proof -
  have "ls = split_nl (join [NL] ls)"
    by (rule split_join_nl [OF assms(1,3), symmetric])
  also have "\<dots> = split_nl (join [NL] ms)"
    by (simp only: assms(5))
  also have "\<dots> = ms"
    by (rule split_join_nl [OF assms(2,4)])
  finally show ?thesis .
qed

lemma first_lines:
  "take 5 (split_nl s) \<noteq> []" "\<forall>l\<in>set (take 5 (split_nl s)). NL \<notin> set l"
proof -
  show "take 5 (split_nl s) \<noteq> []"
    by (cases "split_nl s") simp_all
  show "\<forall>l\<in>set (take 5 (split_nl s)). NL \<notin> set l"
    using split_nl_no_newline [of _ s] by (auto dest: in_set_takeD)
qed

text \<open>
  The identity of an entry is its timestamp and the first five lines of its stripped body:
  two entries with headers the split has cut out have the same identifier exactly when
  they agree on both.
\<close>

lemma entry_identifier_eq_iff:
  assumes "match_pat entry_header_pat h1" and "match_pat entry_header_pat h2"
  shows "(entry_identifier h1 b1 = entry_identifier h2 b2) =
         (take 19 (drop 22 h1) = take 19 (drop 22 h2) \<and>
          take 5 (split_nl (strip b1)) = take 5 (split_nl (strip b2)))"
proof -
  let ?t1 = "take 19 (drop 22 h1)" and ?t2 = "take 19 (drop 22 h2)"
  let ?l1 = "take 5 (split_nl (strip b1))" and ?l2 = "take 5 (split_nl (strip b2))"
  have id1: "entry_identifier h1 b1 = ?t1 @ ''|'' @ join [NL] ?l1"
    by (simp add: entry_identifier_def header_timestamp(1) [OF assms(1)])
  have id2: "entry_identifier h2 b2 = ?t2 @ ''|'' @ join [NL] ?l2"
    by (simp add: entry_identifier_def header_timestamp(1) [OF assms(2)])
  have len: "length ?t1 = length ?t2"
    using header_timestamp(2) [OF assms(1)] header_timestamp(2) [OF assms(2)] by simp
  have inj: "?l1 = ?l2" if "join [NL] ?l1 = join [NL] ?l2"
    using first_lines(1) [of "strip b1"] first_lines(1) [of "strip b2"]
      first_lines(2) [of "strip b1"] first_lines(2) [of "strip b2"] that
    by (rule join_lines_inject)
  have "(join [NL] ?l1 = join [NL] ?l2) = (?l1 = ?l2)"
    using inj by auto
  then show ?thesis
    unfolding id1 id2 using len by (simp add: append_eq_append_conv)
qed

lemma first_of_hash_Cons:
  "first_of_hash d seen (p # ps) =
     (if entry_hash d p \<in> seen then [] else [p]) @
     first_of_hash d (insert (entry_hash d p) seen) ps"
proof -
  have shift: "enumerate (Suc 0) ps = map (apfst Suc) (enumerate 0 ps)"
    by (rule enumerate_Suc_eq)
  show ?thesis
    by (simp add: first_of_hash_def shift filter_map comp_def case_prod_unfold conj_ac)
qed

lemma first_of_hash_length: "length (first_of_hash d seen ps) \<le> length ps"
proof -
  have "length (filter P (enumerate 0 ps)) \<le> length (enumerate 0 ps)" for P
    by (rule length_filter_le)
  then show ?thesis
    by (simp add: first_of_hash_def)
qed

text \<open>
  The loop keeps, of the entries it is given, the first of every hash, in their order, and
  counts the others.
\<close>

lemma dedup_loop_first_of_hash:
  "dedup_loop d es seen recon dup =
     (recon @ concat (map (\<lambda>(h, b). [h, b]) (first_of_hash d seen (entry_pairs es))),
      dup + (length (entry_pairs es) - length (first_of_hash d seen (entry_pairs es))))"
proof (induction d es seen recon dup rule: dedup_loop.induct)
  case (1 d header entry_content rest seen recon dup)
  let ?h = "hexdigest d (entry_identifier header entry_content)"
  show ?case
  proof (cases "?h \<in> seen")
    case True
    have "length (first_of_hash d seen (entry_pairs rest)) \<le> length (entry_pairs rest)"
      by (rule first_of_hash_length)
    with True "1.IH"(2) show ?thesis
      by (simp add: first_of_hash_Cons entry_hash_def Let_def insert_absorb)
  next
    case False
    have "length (first_of_hash d (insert ?h seen) (entry_pairs rest)) \<le> length (entry_pairs rest)"
      by (rule first_of_hash_length)
    with False "1.IH"(1) show ?thesis
      by (simp add: first_of_hash_Cons entry_hash_def Let_def)
  qed
next
  case (2 d header seen recon dup)
  then show ?case by (simp add: first_of_hash_def)
next
  case (3 d seen recon dup)
  then show ?case by (simp add: first_of_hash_def)
qed

lemma re_split_nonempty: "re_split m acc s \<noteq> []"
  by (induction m acc s rule: re_split.induct) (simp_all add: re_split.simps split: option.split)

text \<open>Every header among the entries of a section is a match of the header pattern.\<close>

lemma re_split_headers:
  "list_all (\<lambda>p. match_pat entry_header_pat (fst p))
     (entry_pairs (tl (re_split entry_header_at acc s)))"
proof (induction entry_header_at acc s rule: re_split.induct)
  case (1 acc)
  then show ?case by (simp add: re_split.simps)
next
  case (2 acc c cs)
  show ?case
  proof (cases "entry_header_at (c # cs)")
    case None
    with 2(1) show ?thesis by (simp add: re_split.simps)
  next
    case (Some n)
    then have m: "match_pat entry_header_pat (c # cs)" and n: "n = length entry_header_pat"
      by (auto simp: entry_header_at_def split: if_splits)
    obtain t ts where r: "re_split entry_header_at [] (drop (n - 1) cs) = t # ts"
      using re_split_nonempty [of entry_header_at "[]" "drop (n - 1) cs"] by (cases "re_split entry_header_at [] (drop (n - 1) cs)") auto
    have "list_all (\<lambda>p. match_pat entry_header_pat (fst p)) (entry_pairs ts)"
      using 2(2) [OF Some] unfolding r by simp
    moreover have "match_pat entry_header_pat (take n (c # cs))"
      unfolding n using m by (rule match_pat_take)
    ultimately show ?thesis
      by (simp add: re_split.simps(2) Some r [unfolded One_nat_def])
  qed
qed

text \<open>The scan of a section, by the entries the split cuts out of it.\<close>

lemma dedup_scan_first_of_hash:
  "dedup_scan d section_content =
     (let entries = re_split entry_header_at [] section_content;
          kept = first_of_hash d {} (entry_pairs (tl entries))
      in ((if strip (hd entries) \<noteq> [] then [hd entries] else []) @
            concat (map (\<lambda>(h, b). [h, b]) kept),
          length (entry_pairs (tl entries)) - length kept))"
  by (simp add: dedup_scan_def Let_def dedup_loop_first_of_hash re_split_nonempty)

text \<open>With \<^verbatim>\<open>auto_confirm\<close> on, the operation is the scan followed by the write.\<close>

lemma deduplicate_auto:
  assumes "read_file w = Some content"
    and "re_search learnings_at content = Some section_content"
    and "dedup_scan d section_content = (recon, dup)"
  shows "deduplicate_learnings d True w = Inr (dedup_write content section_content recon dup w)"
proof -
  have "content \<noteq> []"
    using assms(2) by (auto simp: learnings_at_def learnings_header_def)
  then show ?thesis
    using assms by (simp add: deduplicate_learnings_def no_content_def)
qed

text \<open>
  C6 does not hold of the code. The section holds two entries with the same timestamp and
  the same body, the first one on the line after the section marker. The pattern that
  splits the section wants a line feed before each header, and the one before the first
  header belongs to the marker line: the first entry is not seen as an entry, nothing is
  counted as a duplicate and both entries are still in the file, whatever the digest.
  (Of the entries that the split does cut out, the loop keeps the first of every hash, and
  the hash is taken of the timestamp and the first five lines of the stripped body, as the
  lemmas above say.)
\<close>

theorem deduplicate_misses_first_entry:
  "deduplicate_learnings d True
     \<lparr>disk = Some ''## AUTOMATED LEARNINGS\<newline>### Learning Entry - 2024-01-01 10:00:00\<newline>A\<newline>### Learning Entry - 2024-01-01 10:00:00\<newline>A\<newline>'',
      writable = True, platform = Posix, stdin = [], prompts = []\<rparr>
   = Inr ((True, ''Successfully deduplicated. Removed 0 duplicate entries.''),
     \<lparr>disk = Some ''## AUTOMATED LEARNINGS\<newline>### Learning Entry - 2024-01-01 10:00:00\<newline>A\<newline>### Learning Entry - 2024-01-01 10:00:00\<newline>A'',
      writable = True, platform = Posix, stdin = [], prompts = []\<rparr>)"
proof -
  let ?sec = "''### Learning Entry - 2024-01-01 10:00:00\<newline>A\<newline>### Learning Entry - 2024-01-01 10:00:00\<newline>A\<newline>''"
  let ?doc = "''## AUTOMATED LEARNINGS\<newline>### Learning Entry - 2024-01-01 10:00:00\<newline>A\<newline>### Learning Entry - 2024-01-01 10:00:00\<newline>A\<newline>''"
  let ?h = "''\<newline>### Learning Entry - 2024-01-01 10:00:00\<newline>''"
  have found: "re_search learnings_at ?doc = Some ?sec"
    by code_simp
  have entries: "re_split entry_header_at [] ?sec =
      [''### Learning Entry - 2024-01-01 10:00:00\<newline>A'', ?h, ''A\<newline>'']"
    by code_simp
  have first: "strip ''### Learning Entry - 2024-01-01 10:00:00\<newline>A'' \<noteq> []"
    by code_simp
  have scan: "dedup_scan d ?sec =
      ([''### Learning Entry - 2024-01-01 10:00:00\<newline>A'', ?h, ''A\<newline>''], 0)"
    unfolding dedup_scan_def entries Let_def using first by simp
  have written: "dedup_write ?doc ?sec
      [''### Learning Entry - 2024-01-01 10:00:00\<newline>A'', ?h, ''A\<newline>''] 0
      \<lparr>disk = Some ?doc, writable = True, platform = Posix, stdin = [], prompts = []\<rparr> =
      ((True, ''Successfully deduplicated. Removed 0 duplicate entries.''),
       \<lparr>disk = Some ''## AUTOMATED LEARNINGS\<newline>### Learning Entry - 2024-01-01 10:00:00\<newline>A\<newline>### Learning Entry - 2024-01-01 10:00:00\<newline>A'',
        writable = True, platform = Posix, stdin = [], prompts = []\<rparr>)"
    by code_simp
  have dsk: "read_file \<lparr>disk = Some ?doc, writable = True, platform = Posix, stdin = [], prompts = []\<rparr> = Some ?doc"
    by code_simp
  show ?thesis
    by (simp only: deduplicate_auto [OF dsk found scan] written)
qed

text \<open>
  C7 does not hold of the code. The first entry has an empty body, so the line feed that
  ends its header is also the one the next header needs: the first run sees the second
  header as the body of the first entry and removes nothing. It writes the section back
  stripped, the first header loses its leading line feed, and the second run splits the
  section differently, finds the duplicate and removes it. This is so for every digest
  that tells the two identifiers of the first run apart, as SHA-256 does; the sum of the
  bytes does too.
\<close>

theorem deduplicate_second_run_removes:
  assumes "hexdigest d ''2024-01-01 10:00:00|### Learning Entry - 2024-01-02 10:00:00\<newline>A'' \<noteq>
           hexdigest d ''2024-01-02 10:00:00|A''"
  shows "deduplicate_learnings d True
     \<lparr>disk = Some ''## AUTOMATED LEARNINGS\<newline>\<newline>### Learning Entry - 2024-01-01 10:00:00\<newline>### Learning Entry - 2024-01-02 10:00:00\<newline>A\<newline>### Learning Entry - 2024-01-02 10:00:00\<newline>A\<newline>'',
      writable = True, platform = Posix, stdin = [], prompts = []\<rparr>
   = Inr ((True, ''Successfully deduplicated. Removed 0 duplicate entries.''),
     \<lparr>disk = Some ''## AUTOMATED LEARNINGS\<newline>### Learning Entry - 2024-01-01 10:00:00\<newline>### Learning Entry - 2024-01-02 10:00:00\<newline>A\<newline>### Learning Entry - 2024-01-02 10:00:00\<newline>A'',
      writable = True, platform = Posix, stdin = [], prompts = []\<rparr>) \<and>
   deduplicate_learnings d True
     \<lparr>disk = Some ''## AUTOMATED LEARNINGS\<newline>### Learning Entry - 2024-01-01 10:00:00\<newline>### Learning Entry - 2024-01-02 10:00:00\<newline>A\<newline>### Learning Entry - 2024-01-02 10:00:00\<newline>A'',
      writable = True, platform = Posix, stdin = [], prompts = []\<rparr>
   = Inr ((True, ''Successfully deduplicated. Removed 1 duplicate entries.''),
     \<lparr>disk = Some ''## AUTOMATED LEARNINGS\<newline>### Learning Entry - 2024-01-01 10:00:00\<newline>### Learning Entry - 2024-01-02 10:00:00\<newline>A'',
      writable = True, platform = Posix, stdin = [], prompts = []\<rparr>)"
proof
  let ?h1 = "''\<newline>### Learning Entry - 2024-01-01 10:00:00\<newline>''"
  let ?h2 = "''\<newline>### Learning Entry - 2024-01-02 10:00:00\<newline>''"
  let ?b1 = "''### Learning Entry - 2024-01-02 10:00:00\<newline>A''"
  let ?sec1 = "''\<newline>### Learning Entry - 2024-01-01 10:00:00\<newline>### Learning Entry - 2024-01-02 10:00:00\<newline>A\<newline>### Learning Entry - 2024-01-02 10:00:00\<newline>A\<newline>''"
  let ?doc1 = "''## AUTOMATED LEARNINGS\<newline>\<newline>### Learning Entry - 2024-01-01 10:00:00\<newline>### Learning Entry - 2024-01-02 10:00:00\<newline>A\<newline>### Learning Entry - 2024-01-02 10:00:00\<newline>A\<newline>''"
  let ?sec2 = "''### Learning Entry - 2024-01-01 10:00:00\<newline>### Learning Entry - 2024-01-02 10:00:00\<newline>A\<newline>### Learning Entry - 2024-01-02 10:00:00\<newline>A''"
  let ?doc2 = "''## AUTOMATED LEARNINGS\<newline>### Learning Entry - 2024-01-01 10:00:00\<newline>### Learning Entry - 2024-01-02 10:00:00\<newline>A\<newline>### Learning Entry - 2024-01-02 10:00:00\<newline>A''"
  let ?pre2 = "''### Learning Entry - 2024-01-01 10:00:00''"
  have id1: "entry_identifier ?h1 ?b1 = ''2024-01-01 10:00:00|### Learning Entry - 2024-01-02 10:00:00\<newline>A''"
    by code_simp
  have id2: "entry_identifier ?h2 ''A\<newline>'' = ''2024-01-02 10:00:00|A''"
    by code_simp
  have id3: "entry_identifier ?h2 ''A'' = ''2024-01-02 10:00:00|A''"
    by code_simp
  have blank: "strip [] = []"
    by code_simp
  have found1: "re_search learnings_at ?doc1 = Some ?sec1"
    by code_simp
  have entries1: "re_split entry_header_at [] ?sec1 = [[], ?h1, ?b1, ?h2, ''A\<newline>'']"
    by code_simp
  have scan1: "dedup_scan d ?sec1 = ([?h1, ?b1, ?h2, ''A\<newline>''], 0)"
    unfolding dedup_scan_def entries1 Let_def using assms by (simp add: blank id1 id2)
  have written1: "dedup_write ?doc1 ?sec1 [?h1, ?b1, ?h2, ''A\<newline>''] 0
      \<lparr>disk = Some ?doc1, writable = True, platform = Posix, stdin = [], prompts = []\<rparr> =
      ((True, ''Successfully deduplicated. Removed 0 duplicate entries.''),
       \<lparr>disk = Some ?doc2, writable = True, platform = Posix, stdin = [], prompts = []\<rparr>)"
    by code_simp
  have dsk1: "read_file \<lparr>disk = Some ?doc1, writable = True, platform = Posix, stdin = [], prompts = []\<rparr> = Some ?doc1"
    by code_simp
  show "deduplicate_learnings d True
      \<lparr>disk = Some ?doc1, writable = True, platform = Posix, stdin = [], prompts = []\<rparr> =
    Inr ((True, ''Successfully deduplicated. Removed 0 duplicate entries.''),
      \<lparr>disk = Some ?doc2, writable = True, platform = Posix, stdin = [], prompts = []\<rparr>)"
    by (simp only: deduplicate_auto [OF dsk1 found1 scan1] written1)
  have found2: "re_search learnings_at ?doc2 = Some ?sec2"
    by code_simp
  have entries2: "re_split entry_header_at [] ?sec2 = [?pre2, ?h2, ''A'', ?h2, ''A'']"
    by code_simp
  have first2: "strip ?pre2 \<noteq> []"
    by code_simp
  have scan2: "dedup_scan d ?sec2 = ([?pre2, ?h2, ''A''], 1)"
    unfolding dedup_scan_def entries2 Let_def using first2 by (simp add: id3)
  have written2: "dedup_write ?doc2 ?sec2 [?pre2, ?h2, ''A''] 1
      \<lparr>disk = Some ?doc2, writable = True, platform = Posix, stdin = [], prompts = []\<rparr> =
      ((True, ''Successfully deduplicated. Removed 1 duplicate entries.''),
       \<lparr>disk = Some ''## AUTOMATED LEARNINGS\<newline>### Learning Entry - 2024-01-01 10:00:00\<newline>### Learning Entry - 2024-01-02 10:00:00\<newline>A'',
      writable = True, platform = Posix, stdin = [], prompts = []\<rparr>)"
    by code_simp
  have dsk2: "read_file \<lparr>disk = Some ?doc2, writable = True, platform = Posix, stdin = [], prompts = []\<rparr> = Some ?doc2"
    by code_simp
  show "deduplicate_learnings d True
      \<lparr>disk = Some ?doc2, writable = True, platform = Posix, stdin = [], prompts = []\<rparr> =
    Inr ((True, ''Successfully deduplicated. Removed 1 duplicate entries.''),
      \<lparr>disk = Some ''## AUTOMATED LEARNINGS\<newline>### Learning Entry - 2024-01-01 10:00:00\<newline>### Learning Entry - 2024-01-02 10:00:00\<newline>A'',
      writable = True, platform = Posix, stdin = [], prompts = []\<rparr>)"
    by (simp only: deduplicate_auto [OF dsk2 found2 scan2] written2)
qed

theorem deduplicate_second_run_removes_witness:
  "deduplicate_learnings byte_sum True
     \<lparr>disk = Some ''## AUTOMATED LEARNINGS\<newline>\<newline>### Learning Entry - 2024-01-01 10:00:00\<newline>### Learning Entry - 2024-01-02 10:00:00\<newline>A\<newline>### Learning Entry - 2024-01-02 10:00:00\<newline>A\<newline>'',
      writable = True, platform = Posix, stdin = [], prompts = []\<rparr>
   = Inr ((True, ''Successfully deduplicated. Removed 0 duplicate entries.''),
     \<lparr>disk = Some ''## AUTOMATED LEARNINGS\<newline>### Learning Entry - 2024-01-01 10:00:00\<newline>### Learning Entry - 2024-01-02 10:00:00\<newline>A\<newline>### Learning Entry - 2024-01-02 10:00:00\<newline>A'',
      writable = True, platform = Posix, stdin = [], prompts = []\<rparr>) \<and>
   deduplicate_learnings byte_sum True
     \<lparr>disk = Some ''## AUTOMATED LEARNINGS\<newline>### Learning Entry - 2024-01-01 10:00:00\<newline>### Learning Entry - 2024-01-02 10:00:00\<newline>A\<newline>### Learning Entry - 2024-01-02 10:00:00\<newline>A'',
      writable = True, platform = Posix, stdin = [], prompts = []\<rparr>
   = Inr ((True, ''Successfully deduplicated. Removed 1 duplicate entries.''),
     \<lparr>disk = Some ''## AUTOMATED LEARNINGS\<newline>### Learning Entry - 2024-01-01 10:00:00\<newline>### Learning Entry - 2024-01-02 10:00:00\<newline>A'',
      writable = True, platform = Posix, stdin = [], prompts = []\<rparr>)"
proof -
  have apart: "hexdigest byte_sum ''2024-01-01 10:00:00|### Learning Entry - 2024-01-02 10:00:00\<newline>A'' \<noteq>
      hexdigest byte_sum ''2024-01-02 10:00:00|A''"
    by code_simp
  show ?thesis
    by (rule deduplicate_second_run_removes [OF apart])
qed

end
